theory Spec2Isabelle
  imports Main "HOL-Library.Word" "HOL-Library.Multiset"
begin

section \<open>JavaScript strings\<close>

text \<open>
  A JavaScript string is a sequence of 16-bit code units. \<open>String.prototype.trim\<close>
  removes, at both ends, the code units that ECMAScript calls WhiteSpace or
  LineTerminator: TAB, LF, VT, FF, CR, SP, NBSP, U+1680, U+2000..U+200A, U+2028, U+2029,
  U+202F, U+205F, U+3000 and U+FEFF. All of them lie in the basic plane, so trimming by
  code unit is exact.
\<close>

type_synonym code_unit = "16 word"
type_synonym js_string = "code_unit list"

definition js :: "string \<Rightarrow> js_string" where
  \<comment> \<open>the JavaScript string of an ASCII literal\<close>
  "js s = map (\<lambda>c. of_nat (of_char c)) s"

definition isWhiteSpace :: "code_unit \<Rightarrow> bool" where
  "isWhiteSpace c \<longleftrightarrow>
     c = 9 \<or> c = 10 \<or> c = 11 \<or> c = 12 \<or> c = 13 \<or> c = 32 \<or> c = 160 \<or> c = 5760 \<or>
     (8192 \<le> c \<and> c \<le> 8202) \<or> c = 8232 \<or> c = 8233 \<or> c = 8239 \<or> c = 8287 \<or>
     c = 12288 \<or> c = 65279"

definition trim :: "js_string \<Rightarrow> js_string" where
  "trim s = rev (dropWhile isWhiteSpace (rev (dropWhile isWhiteSpace s)))"

section \<open>JavaScript arrays\<close>

text \<open>
  \<open>Array.prototype.findIndex\<close>: the index of the first element that satisfies the
  predicate, \<open>-1\<close> when there is none.
\<close>

fun findIndex :: "('a \<Rightarrow> bool) \<Rightarrow> 'a list \<Rightarrow> int" where
  "findIndex P [] = - 1"
| "findIndex P (x # xs) =
     (if P x then 0 else (let r = findIndex P xs in if r < 0 then - 1 else r + 1))"

text \<open>
  \<open>Array.prototype.splice(start, deleteCount, ...items)\<close>, returning the array after the
  call and the array of removed elements. A negative \<open>start\<close> counts from the end and
  is clamped at 0, a \<open>start\<close> beyond the end is clamped at the length, and
  \<open>deleteCount\<close> is clamped to what is left after \<open>start\<close>.
\<close>

definition splice :: "'a list \<Rightarrow> int \<Rightarrow> int \<Rightarrow> 'a list \<Rightarrow> 'a list \<times> 'a list" where
  "splice xs start deleteCount items =
     (let len = int (length xs);
          actualStart = (if start < 0 then max (len + start) 0 else min start len);
          actualDeleteCount = min (max deleteCount 0) (len - actualStart);
          a = nat actualStart;
          d = nat actualDeleteCount
      in (take a xs @ items @ drop (a + d) xs, take d (drop a xs)))"

text \<open>
  Modelled from the spec: \<open>arrayMove\<close> is not among the repository's sources. The
  page imports it from the drag-and-drop library \<open>@dnd-kit/sortable\<close>, a dependency.
  The specification (4.4) words the move as: remove the element at the source index and
  reinsert it at the target index. The definition does so the way the library's function
  does, with two calls of \<open>splice\<close> on a copy of the array:
  \<^verbatim>\<open>
  export function arrayMove<T>(array: T[], from: number, to: number): T[] {
    const newArray = array.slice();
    newArray.splice(
      to < 0 ? newArray.length + to : to,
      0,
      newArray.splice(from, 1)[0]
    );
    return newArray;
  }
  \<close>
  For indices within the array this is the move of the specification
  (\<open>arrayMove_in_range\<close> below). JavaScript's \<open>splice\<close> also fixes what happens
  otherwise. The arguments of the outer \<open>splice\<close> are evaluated from left to right, so
  the length in the first argument is the one before the removal. When the inner
  \<open>splice\<close> removes nothing, its result has no element 0 and \<open>undefined\<close> is
  inserted: the array then holds an entry that is no element, which the model returns as
  the error \<open>UndefinedEntry\<close>.
\<close>

datatype error = UndefinedEntry

definition arrayMove :: "'a list \<Rightarrow> int \<Rightarrow> int \<Rightarrow> error + 'a list" where
  "arrayMove array from to =
     (let newArray = array;
          start = (if to < 0 then int (length newArray) + to else to);
          (newArray', removed) = splice newArray from 1 []
      in case removed of
           [] \<Rightarrow> Inl UndefinedEntry
         | x # _ \<Rightarrow> Inr (fst (splice newArray' start 0 [x])))"

section \<open>The data model and the page state\<close>

record Todo =
  id_todo :: js_string
  body :: js_string
  completed :: bool

text \<open>What \<open>toast({title, description, variant})\<close> is called with.\<close>

record toast =
  title :: string
  description :: string
  variant :: "string option"

text \<open>The requests that the page sends with \<open>fetch\<close>, by method and path.\<close>

datatype request =
    POST_todos js_string bool
  | PATCH_todo js_string
  | DELETE_todo js_string
  | PUT_todo js_string js_string

text \<open>
  What an awaited \<open>fetch\<close> gives back: a response with its \<open>ok\<close> flag and what
  \<open>response.json()\<close> would resolve to, or a rejection with the thrown error's message.
\<close>

datatype json_result = JsonValue Todo | JsonRejects string

datatype fetch_result = Response bool json_result | FetchRejects string

text \<open>
  The state of the page \<open>Index\<close> that the handlers read and write: the \<open>useState\<close>
  cells \<open>todos\<close>, \<open>newTodo\<close> and \<open>creating\<close>, and the logs of the effects
  (toasts shown, \<open>console.error\<close> lines, requests sent). The cells \<open>loading\<close> and
  \<open>showShortcuts\<close> are left out: none of the handlers below reads or writes them.
\<close>

record app_state =
  todos :: "Todo list"
  newTodo :: js_string
  creating :: bool
  toasts :: "toast list"
  console :: "(string \<times> string) list"
  requests :: "request list"

definition success_toast :: "string \<Rightarrow> toast" where
  "success_toast d = \<lparr>title = ''Success'', description = d, variant = None\<rparr>"

definition error_toast :: "string \<Rightarrow> toast" where
  "error_toast d = \<lparr>title = ''Error'', description = d, variant = Some ''destructive''\<rparr>"

text \<open>
  The \<open>catch\<close> block shared in shape by the four handlers: \<open>console.error(label, error)\<close>
  and a destructive toast with the given description.
\<close>

definition catch_error :: "string \<Rightarrow> string \<Rightarrow> string \<Rightarrow> app_state \<Rightarrow> app_state" where
  "catch_error label err d st =
     st\<lparr>console := console st @ [(label, err)], toasts := toasts st @ [error_toast d]\<rparr>"

section \<open>The handlers of the page\<close>

text \<open>
  Every handler is an \<open>async\<close> function with one request. Its model has two parts: what
  runs up to the \<open>await fetch(...)\<close> (\<open>_begin\<close>: \<open>None\<close> when the handler returns before
  sending anything), and what runs once the request has settled (\<open>_resume\<close>). The
  \<open>setTodos(prev => ...)\<close> updaters read the state at the time they run, so \<open>_resume\<close>
  takes the state of that moment. The handler under its own name is the two in sequence.
\<close>

subsection \<open>createTodo\<close>

text \<open>
  The handler starts with \<open>e.preventDefault()\<close>, which acts on the form event only. The
  text to create is the cell \<open>newTodo\<close>; the request carries it trimmed, with
  \<open>completed: false\<close>.
\<close>

definition createTodo_begin :: "app_state \<Rightarrow> app_state option" where
  "createTodo_begin st =
     (if trim (newTodo st) = [] then None
      else Some (st\<lparr>creating := True,
                     requests := requests st @ [POST_todos (trim (newTodo st)) False]\<rparr>))"

definition createTodo_resume :: "fetch_result \<Rightarrow> app_state \<Rightarrow> app_state" where
  "createTodo_resume r st =
     (let st' =
        (case r of
           Response ok j \<Rightarrow>
             if ok then
               (case j of
                  JsonValue createdTodo \<Rightarrow>
                    st\<lparr>todos := createdTodo # todos st,
                       newTodo := [],
                       toasts := toasts st @ [success_toast ''Todo created successfully!'']\<rparr>
                | JsonRejects e \<Rightarrow>
                    catch_error ''Error creating todo:'' e ''Failed to create todo'' st)
             else catch_error ''Error creating todo:'' ''Failed to create todo''
                    ''Failed to create todo'' st
         | FetchRejects e \<Rightarrow>
             catch_error ''Error creating todo:'' e ''Failed to create todo'' st)
      in st'\<lparr>creating := False\<rparr>)"

definition createTodo :: "fetch_result \<Rightarrow> app_state \<Rightarrow> app_state" where
  "createTodo r st =
     (case createTodo_begin st of None \<Rightarrow> st | Some st' \<Rightarrow> createTodo_resume r st')"

subsection \<open>toggleTodo\<close>

definition toggleTodo_begin :: "js_string \<Rightarrow> bool \<Rightarrow> app_state \<Rightarrow> app_state option" where
  "toggleTodo_begin i c st =
     (if c then None else Some (st\<lparr>requests := requests st @ [PATCH_todo i]\<rparr>))"

definition toggleTodo_resume :: "js_string \<Rightarrow> fetch_result \<Rightarrow> app_state \<Rightarrow> app_state" where
  "toggleTodo_resume i r st =
     (case r of
        Response ok j \<Rightarrow>
          if ok then
            st\<lparr>todos := map (\<lambda>todo. if id_todo todo = i then todo\<lparr>completed := True\<rparr> else todo)
                           (todos st),
               toasts := toasts st @ [success_toast ''Todo marked as completed!'']\<rparr>
          else catch_error ''Error updating todo:'' ''Failed to update todo''
                 ''Failed to update todo'' st
      | FetchRejects e \<Rightarrow>
          catch_error ''Error updating todo:'' e ''Failed to update todo'' st)"

definition toggleTodo :: "js_string \<Rightarrow> bool \<Rightarrow> fetch_result \<Rightarrow> app_state \<Rightarrow> app_state" where
  "toggleTodo i c r st =
     (case toggleTodo_begin i c st of None \<Rightarrow> st | Some st' \<Rightarrow> toggleTodo_resume i r st')"

subsection \<open>deleteTodo\<close>

definition deleteTodo_begin :: "js_string \<Rightarrow> app_state \<Rightarrow> app_state" where
  "deleteTodo_begin i st = st\<lparr>requests := requests st @ [DELETE_todo i]\<rparr>"

definition deleteTodo_resume :: "js_string \<Rightarrow> fetch_result \<Rightarrow> app_state \<Rightarrow> app_state" where
  "deleteTodo_resume i r st =
     (case r of
        Response ok j \<Rightarrow>
          if ok then
            st\<lparr>todos := filter (\<lambda>todo. id_todo todo \<noteq> i) (todos st),
               toasts := toasts st @ [success_toast ''Todo deleted successfully!'']\<rparr>
          else catch_error ''Error deleting todo:'' ''Failed to delete todo''
                 ''Failed to delete todo'' st
      | FetchRejects e \<Rightarrow>
          catch_error ''Error deleting todo:'' e ''Failed to delete todo'' st)"

definition deleteTodo :: "js_string \<Rightarrow> fetch_result \<Rightarrow> app_state \<Rightarrow> app_state" where
  "deleteTodo i r st = deleteTodo_resume i r (deleteTodo_begin i st)"

subsection \<open>editTodo\<close>

definition editTodo_begin :: "js_string \<Rightarrow> js_string \<Rightarrow> app_state \<Rightarrow> app_state" where
  "editTodo_begin i newBody st = st\<lparr>requests := requests st @ [PUT_todo i newBody]\<rparr>"

definition editTodo_resume ::
  "js_string \<Rightarrow> js_string \<Rightarrow> fetch_result \<Rightarrow> app_state \<Rightarrow> app_state" where
  "editTodo_resume i newBody r st =
     (case r of
        Response ok j \<Rightarrow>
          if ok then
            st\<lparr>todos := map (\<lambda>todo. if id_todo todo = i then todo\<lparr>body := newBody\<rparr> else todo)
                           (todos st),
               toasts := toasts st @ [success_toast ''Todo updated successfully!'']\<rparr>
          else catch_error ''Error updating todo:'' ''Failed to update todo''
                 ''Failed to update todo'' st
      | FetchRejects e \<Rightarrow>
          catch_error ''Error updating todo:'' e ''Failed to update todo'' st)"

definition editTodo :: "js_string \<Rightarrow> js_string \<Rightarrow> fetch_result \<Rightarrow> app_state \<Rightarrow> app_state" where
  "editTodo i newBody r st = editTodo_resume i newBody r (editTodo_begin i newBody st)"

subsection \<open>handleDragEnd\<close>

text \<open>
  The event of a finished drag: the id of the dragged item and, when the drop is over an
  item, that item's id (\<open>over\<close> is \<open>null\<close> otherwise). The handler sends no request.
\<close>

record drag_end_event =
  active :: js_string
  over :: "js_string option"

definition handleDragEnd :: "drag_end_event \<Rightarrow> app_state \<Rightarrow> error + app_state" where
  "handleDragEnd event st =
     (case over event of
        None \<Rightarrow> Inr st
      | Some over_id \<Rightarrow>
          if active event \<noteq> over_id then
            (let items = todos st;
                 oldIndex = findIndex (\<lambda>item. id_todo item = active event) items;
                 newIndex = findIndex (\<lambda>item. id_todo item = over_id) items
             in case arrayMove items oldIndex newIndex of
                  Inl e \<Rightarrow> Inl e
                | Inr items' \<Rightarrow> Inr (st\<lparr>todos := items'\<rparr>))
          else Inr st)"

section \<open>The list item and its inline editor\<close>

text \<open>
  The \<open>useState\<close> cells of \<open>DraggableTodoItem\<close>. A handler that calls the \<open>onEdit\<close>
  property returns the arguments of that call.
\<close>

record item_state =
  isEditing :: bool
  editValue :: js_string

definition handleEdit :: "Todo \<Rightarrow> item_state \<Rightarrow> item_state" where
  "handleEdit todo s =
     (if completed todo then s else \<lparr>isEditing = True, editValue = body todo\<rparr>)"

definition handleSaveEdit ::
  "Todo \<Rightarrow> item_state \<Rightarrow> (js_string \<times> js_string) option \<times> item_state" where
  "handleSaveEdit todo s =
     ((if trim (editValue s) \<noteq> [] \<and> trim (editValue s) \<noteq> body todo
       then Some (id_todo todo, trim (editValue s)) else None),
      \<lparr>isEditing = False, editValue = body todo\<rparr>)"

definition handleCancelEdit :: "Todo \<Rightarrow> item_state \<Rightarrow> item_state" where
  "handleCancelEdit todo s = \<lparr>isEditing = False, editValue = body todo\<rparr>"

text \<open>
  The page passes \<open>editTodo\<close> as \<open>onEdit\<close>, so a save in the editor of \<open>todo\<close> runs
  \<open>editTodo\<close> up to its request when \<open>handleSaveEdit\<close> calls \<open>onEdit\<close>.
\<close>

definition saveEdit_onEdit ::
  "Todo \<Rightarrow> item_state \<Rightarrow> app_state \<Rightarrow> item_state \<times> app_state" where
  "saveEdit_onEdit todo s st =
     (case handleSaveEdit todo s of
        (None, s') \<Rightarrow> (s', st)
      | (Some (i, newBody), s') \<Rightarrow> (s', editTodo_begin i newBody st))"

section \<open>Notions used to state the properties\<close>

text \<open>Whether a settled request counts as a success for the handlers: a response with \<open>ok\<close>.\<close>

definition gateway_ok :: "fetch_result \<Rightarrow> bool" where
  "gateway_ok r = (case r of Response ok j \<Rightarrow> ok | FetchRejects e \<Rightarrow> False)"

text \<open>
  The reorder as the specification words it: remove the element at the source index and
  reinsert it at the target index.
\<close>

definition remove_at :: "nat \<Rightarrow> 'a list \<Rightarrow> 'a list" where
  "remove_at i xs = take i xs @ drop (Suc i) xs"

definition insert_at :: "nat \<Rightarrow> 'a \<Rightarrow> 'a list \<Rightarrow> 'a list" where
  "insert_at j x ys = take j ys @ [x] @ drop j ys"

definition move_spec :: "nat \<Rightarrow> nat \<Rightarrow> 'a list \<Rightarrow> 'a list" where
  "move_spec i j xs = insert_at j (xs ! i) (remove_at i xs)"

text \<open>
  A pending mutation of one task, by kind and id, with the two halves of its handler:
  \<open>issue\<close> runs it up to the request (a toggle of a task that is not completed yet),
  \<open>settle\<close> runs the rest once the request has settled.
\<close>

datatype mutation = Toggle js_string | Edit js_string js_string | Delete js_string

fun target :: "mutation \<Rightarrow> js_string" where
  "target (Toggle i) = i"
| "target (Edit i b) = i"
| "target (Delete i) = i"

fun issue :: "mutation \<Rightarrow> app_state \<Rightarrow> app_state" where
  "issue (Toggle i) st = (case toggleTodo_begin i False st of None \<Rightarrow> st | Some st' \<Rightarrow> st')"
| "issue (Edit i b) st = editTodo_begin i b st"
| "issue (Delete i) st = deleteTodo_begin i st"

fun settle :: "mutation \<Rightarrow> fetch_result \<Rightarrow> app_state \<Rightarrow> app_state" where
  "settle (Toggle i) r st = toggleTodo_resume i r st"
| "settle (Edit i b) r st = editTodo_resume i b r st"
| "settle (Delete i) r st = deleteTodo_resume i r st"

text \<open>The tasks of a store other than the one with the given id, in their order.\<close>

definition others :: "js_string \<Rightarrow> Todo list \<Rightarrow> Todo list" where
  "others i xs = filter (\<lambda>t. id_todo t \<noteq> i) xs"

text \<open>
  No task that is completed in the store \<open>before\<close> is found uncompleted, under the same
  id, in the store \<open>after\<close>.
\<close>

definition stays_completed :: "Todo list \<Rightarrow> Todo list \<Rightarrow> bool" where
  "stays_completed before after \<longleftrightarrow>
     (\<forall>t \<in> set before. completed t \<longrightarrow>
        (\<forall>u \<in> set after. id_todo u = id_todo t \<longrightarrow> completed u))"

subsection \<open>A store to evaluate the handlers on\<close>

definition milk :: Todo where
  "milk = \<lparr>id_todo = js ''1'', body = js ''buy milk'', completed = False\<rparr>"

definition dog :: Todo where
  "dog = \<lparr>id_todo = js ''2'', body = js ''walk the dog'', completed = True\<rparr>"

definition book :: Todo where
  "book = \<lparr>id_todo = js ''3'', body = js ''read a book'', completed = False\<rparr>"

definition demo :: app_state where
  "demo = \<lparr>todos = [milk, dog, book], newTodo = js ''   '', creating = False,
            toasts = [], console = [], requests = []\<rparr>"

section \<open>Facts about the array operations\<close>

lemma findIndex_ge: "- 1 \<le> findIndex P xs"
  by (induction xs) (auto simp: Let_def)

lemma findIndex_absent: "(findIndex P xs = - 1) = (\<forall>x \<in> set xs. \<not> P x)"
proof (induction xs)
  case Nil
  show ?case by simp
next
  case (Cons x xs)
  have "- 1 \<le> findIndex P xs" by (rule findIndex_ge)
  with Cons show ?case by (auto simp: Let_def)
qed

lemma findIndex_first:
  assumes "k < length xs" "P (xs ! k)" "\<forall>m < k. \<not> P (xs ! m)"
  shows "findIndex P xs = int k"
  using assms
proof (induction xs arbitrary: k)
  case Nil
  then show ?case by simp
next
  case (Cons x xs)
  show ?case
  proof (cases k)
    case 0
    with Cons.prems show ?thesis by simp
  next
    case (Suc n)
    from Cons.prems Suc have nx: "\<not> P x" by auto
    from Cons.prems Suc have "n < length xs" "P (xs ! n)" "\<forall>m < n. \<not> P (xs ! m)"
      by auto
    then have "findIndex P xs = int n" by (rule Cons.IH)
    with nx Suc show ?thesis by (simp add: Let_def)
  qed
qed

lemma findIndex_distinct:
  assumes "distinct (map f xs)" "k < length xs"
  shows "findIndex (\<lambda>x. f x = f (xs ! k)) xs = int k"
proof (rule findIndex_first)
  show "k < length xs" by fact
  show "f (xs ! k) = f (xs ! k)" by simp
  show "\<forall>m<k. f (xs ! m) \<noteq> f (xs ! k)"
  proof (intro allI impI)
    fix m assume "m < k"
    with assms have "m < length (map f xs)" "k < length (map f xs)" "m \<noteq> k" by auto
    with assms(1) have "map f xs ! m \<noteq> map f xs ! k"
      using nth_eq_iff_index_eq [of "map f xs" m k] by blast
    with \<open>m < k\<close> assms(2) show "f (xs ! m) \<noteq> f (xs ! k)" by simp
  qed
qed

lemma arrayMove_in_range:
  assumes "i < length xs" "j < length xs"
  shows "arrayMove xs (int i) (int j) = Inr (move_spec i j xs)"
proof -
  have rm: "splice xs (int i) 1 [] = (remove_at i xs, [xs ! i])"
    using assms(1)
    by (simp add: splice_def remove_at_def Let_def flip: Cons_nth_drop_Suc)
  have len: "length (remove_at i xs) = length xs - 1"
    using assms(1) by (simp add: remove_at_def)
  have ins: "fst (splice (remove_at i xs) (int j) 0 [xs ! i]) = insert_at j (xs ! i) (remove_at i xs)"
    using assms len by (simp add: splice_def insert_at_def Let_def min_def)
  show ?thesis
    using rm ins by (simp add: arrayMove_def move_spec_def)
qed


lemma length_remove_at: "i < length xs \<Longrightarrow> length (remove_at i xs) = length xs - 1"
  by (simp add: remove_at_def)

lemma remove_at_insert_at: "j \<le> length ys \<Longrightarrow> remove_at j (insert_at j x ys) = ys"
  by (simp add: remove_at_def insert_at_def)

lemma insert_at_nth: "j \<le> length ys \<Longrightarrow> insert_at j x ys ! j = x"
  by (simp add: insert_at_def nth_append)

lemma insert_at_remove_at: "i < length xs \<Longrightarrow> insert_at i (xs ! i) (remove_at i xs) = xs"
  by (simp add: insert_at_def remove_at_def id_take_nth_drop [symmetric])

lemma mset_remove_at: "i < length xs \<Longrightarrow> add_mset (xs ! i) (mset (remove_at i xs)) = mset xs"
proof -
  assume i: "i < length xs"
  then have "xs = take i xs @ xs ! i # drop (Suc i) xs" by (rule id_take_nth_drop)
  then have "mset xs = mset (take i xs @ xs ! i # drop (Suc i) xs)" by simp
  then show ?thesis by (simp add: remove_at_def)
qed

lemma mset_insert_at: "mset (insert_at j x ys) = add_mset x (mset ys)"
proof -
  have "mset (take j ys @ drop j ys) = mset ys" by (simp only: append_take_drop_id)
  then have "mset (take j ys) + mset (drop j ys) = mset ys" by (simp only: mset_append)
  then show ?thesis by (simp add: insert_at_def)
qed

lemma length_move_spec: "i < length xs \<Longrightarrow> length (move_spec i j xs) = length xs"
  by (simp add: move_spec_def insert_at_def remove_at_def)

lemma move_spec_nth_target:
  "i < length xs \<Longrightarrow> j < length xs \<Longrightarrow> move_spec i j xs ! j = xs ! i"
  by (simp add: move_spec_def insert_at_nth length_remove_at)

lemma move_spec_others:
  "i < length xs \<Longrightarrow> j < length xs \<Longrightarrow> remove_at j (move_spec i j xs) = remove_at i xs"
  by (simp add: move_spec_def remove_at_insert_at length_remove_at)

lemma mset_move_spec: "i < length xs \<Longrightarrow> mset (move_spec i j xs) = mset xs"
  by (simp add: move_spec_def mset_insert_at mset_remove_at)

lemma move_spec_round_trip:
  assumes "i < length xs" "j < length xs"
  shows "move_spec j i (move_spec i j xs) = xs"
proof -
  have "move_spec j i (move_spec i j xs)
      = insert_at i (move_spec i j xs ! j) (remove_at j (move_spec i j xs))"
    by (simp add: move_spec_def)
  also have "\<dots> = insert_at i (xs ! i) (remove_at i xs)"
    using assms by (simp add: move_spec_nth_target move_spec_others)
  also have "\<dots> = xs" using assms(1) by (rule insert_at_remove_at)
  finally show ?thesis .
qed

lemma move_spec_nth_source:
  assumes "i < length xs" "j < length xs" "i \<noteq> j"
  shows "move_spec i j xs ! i = xs ! (if i < j then Suc i else i - 1)"
proof (cases "i < j")
  case True
  with assms show ?thesis
    by (simp add: move_spec_def insert_at_def remove_at_def nth_append min_def)
next
  case False
  with assms have ji: "j < i" by simp
  then have d: "i - j = Suc (i - Suc j)" by simp
  have "move_spec i j xs ! i = (take j (remove_at i xs) @ xs ! i # drop j (remove_at i xs)) ! i"
    by (simp add: move_spec_def insert_at_def)
  also have "\<dots> = (xs ! i # drop j (remove_at i xs)) ! (i - j)"
    using assms ji by (simp add: nth_append length_remove_at)
  also have "\<dots> = drop j (remove_at i xs) ! (i - Suc j)"
    by (simp only: d nth_Cons_Suc)
  also have "\<dots> = remove_at i xs ! (i - 1)"
    using assms ji by (simp add: length_remove_at)
  also have "\<dots> = xs ! (i - 1)"
    using assms ji by (simp add: remove_at_def nth_append)
  finally show ?thesis using False by simp
qed

section \<open>What the handlers do to the store\<close>

lemma todos_catch_error: "todos (catch_error l e d st) = todos st"
  by (simp add: catch_error_def)

lemma toasts_catch_error: "toasts (catch_error l e d st) = toasts st @ [error_toast d]"
  by (simp add: catch_error_def)

lemma requests_catch_error: "requests (catch_error l e d st) = requests st"
  by (simp add: catch_error_def)

lemma todos_toggleTodo_resume:
  "todos (toggleTodo_resume i r st) =
     (if gateway_ok r
      then map (\<lambda>todo. if id_todo todo = i then todo\<lparr>completed := True\<rparr> else todo) (todos st)
      else todos st)"
  by (cases r) (simp_all add: toggleTodo_resume_def gateway_ok_def todos_catch_error)

lemma todos_editTodo_resume:
  "todos (editTodo_resume i b r st) =
     (if gateway_ok r
      then map (\<lambda>todo. if id_todo todo = i then todo\<lparr>body := b\<rparr> else todo) (todos st)
      else todos st)"
  by (cases r) (simp_all add: editTodo_resume_def gateway_ok_def todos_catch_error)

lemma todos_deleteTodo_resume:
  "todos (deleteTodo_resume i r st) =
     (if gateway_ok r then filter (\<lambda>todo. id_todo todo \<noteq> i) (todos st) else todos st)"
  by (cases r) (simp_all add: deleteTodo_resume_def gateway_ok_def todos_catch_error)

lemma toasts_toggleTodo_resume:
  "toasts (toggleTodo_resume i r st) =
     toasts st @ [if gateway_ok r then success_toast ''Todo marked as completed!''
                  else error_toast ''Failed to update todo'']"
  by (cases r) (simp_all add: toggleTodo_resume_def gateway_ok_def toasts_catch_error)

lemma toasts_editTodo_resume:
  "toasts (editTodo_resume i b r st) =
     toasts st @ [if gateway_ok r then success_toast ''Todo updated successfully!''
                  else error_toast ''Failed to update todo'']"
  by (cases r) (simp_all add: editTodo_resume_def gateway_ok_def toasts_catch_error)

lemma requests_editTodo_resume: "requests (editTodo_resume i b r st) = requests st"
  by (cases r) (simp_all add: editTodo_resume_def requests_catch_error)

lemma requests_toggleTodo_resume: "requests (toggleTodo_resume i r st) = requests st"
  by (cases r) (simp_all add: toggleTodo_resume_def requests_catch_error)

lemmas demo_defs = demo_def milk_def dog_def book_def js_def

lemma js_inject: "(js a = js b) = (a = b)"
proof -
  have "inj (\<lambda>c. (of_nat (of_char c :: nat) :: 16 word))"
  proof (rule injI)
    fix c d :: char
    assume "(of_nat (of_char c :: nat) :: 16 word) = of_nat (of_char d)"
    then have "unat (of_nat (of_char c :: nat) :: 16 word) = unat (of_nat (of_char d :: nat) :: 16 word)"
      by simp
    moreover have "(of_char e :: nat) < 2 ^ 16" for e
    proof -
      have "(of_char e :: nat) mod 256 < 256" by simp
      then have "(of_char e :: nat) < 256" by (simp only: of_char_mod_256)
      moreover have "(256::nat) < 2 ^ 16" by simp
      ultimately show ?thesis by (rule less_trans)
    qed
    ultimately have "(of_char c :: nat) = of_char d"
      by (simp add: unat_of_nat)
    then show "c = d" by simp
  qed
  then show ?thesis by (simp add: js_def inj_map_eq_map)
qed

lemma todos_demo: "todos demo = [milk, dog, book]"
  by (simp add: demo_def)

lemma demo_ids: "id_todo milk = js ''1''" "id_todo dog = js ''2''" "id_todo book = js ''3''"
  by (simp_all add: milk_def dog_def book_def)

section \<open>Toggling a task\<close>

text \<open>
  C1, as the specification states it, fails: while the request of a toggle is outstanding
  the store is not changed. In the store \<open>demo\<close> the task with id 1 is not completed;
  after \<open>toggleTodo\<close> has sent its request, and before the request settles, the
  \<open>completed\<close> fields of the three stored tasks are what they were, the first one
  still \<open>False\<close>.
\<close>

theorem toggle_pending_not_optimistic:
  "map_option (map completed \<circ> todos) (toggleTodo_begin (js ''1'') False demo)
     = Some [False, True, False]"
  by (simp add: toggleTodo_begin_def demo_defs)

text \<open>
  C1, amended: for a stored task that is not completed, \<open>toggleTodo\<close> on its id sends
  the request \<open>PATCH /todos/id\<close> and leaves the store as it is while the request is
  outstanding. When the request fails, the store is still unchanged (the task is stored
  as before, not completed) and one error toast is shown. When it succeeds, the tasks with
  that id are rewritten with \<open>completed = true\<close> and nothing else changes.
\<close>

theorem toggle_waits_for_gateway:
  assumes "t \<in> set (todos st)" and "\<not> completed t"
  shows "map_option todos (toggleTodo_begin (id_todo t) (completed t) st) = Some (todos st)
       \<and> map_option requests (toggleTodo_begin (id_todo t) (completed t) st)
           = Some (requests st @ [PATCH_todo (id_todo t)])
       \<and> (\<not> gateway_ok r \<longrightarrow>
            todos (toggleTodo (id_todo t) (completed t) r st) = todos st
          \<and> t \<in> set (todos (toggleTodo (id_todo t) (completed t) r st))
          \<and> toasts (toggleTodo (id_todo t) (completed t) r st)
              = toasts st @ [error_toast ''Failed to update todo''])
       \<and> (gateway_ok r \<longrightarrow>
            todos (toggleTodo (id_todo t) (completed t) r st)
              = map (\<lambda>todo. if id_todo todo = id_todo t then todo\<lparr>completed := True\<rparr> else todo)
                  (todos st)
          \<and> t\<lparr>completed := True\<rparr> \<in> set (todos (toggleTodo (id_todo t) (completed t) r st))
          \<and> (\<forall>u \<in> set (todos (toggleTodo (id_todo t) (completed t) r st)).
                id_todo u = id_todo t \<longrightarrow> completed u))"
proof -
  let ?f = "\<lambda>todo. if id_todo todo = id_todo t then todo\<lparr>completed := True\<rparr> else todo"
  let ?st = "toggleTodo (id_todo t) (completed t) r st"
  have b: "toggleTodo_begin (id_todo t) (completed t) st
      = Some (st\<lparr>requests := requests st @ [PATCH_todo (id_todo t)]\<rparr>)"
    using assms(2) by (simp add: toggleTodo_begin_def)
  have run: "?st
      = toggleTodo_resume (id_todo t) r (st\<lparr>requests := requests st @ [PATCH_todo (id_todo t)]\<rparr>)"
    by (simp add: toggleTodo_def b)
  have c1: "map_option todos (toggleTodo_begin (id_todo t) (completed t) st) = Some (todos st)"
    by (simp add: b)
  have c2: "map_option requests (toggleTodo_begin (id_todo t) (completed t) st)
           = Some (requests st @ [PATCH_todo (id_todo t)])"
    by (simp add: b)
  have fail_todos: "todos ?st = todos st" if "\<not> gateway_ok r"
    using that by (simp add: run todos_toggleTodo_resume)
  have fail_toasts: "toasts ?st = toasts st @ [error_toast ''Failed to update todo'']"
    if "\<not> gateway_ok r"
    using that by (simp add: run toasts_toggleTodo_resume)
  have ok_todos: "todos ?st = map ?f (todos st)" if "gateway_ok r"
    using that by (simp add: run todos_toggleTodo_resume)
  have "?f t \<in> ?f ` set (todos st)" using assms(1) by (rule imageI)
  then have mem: "t\<lparr>completed := True\<rparr> \<in> set (map ?f (todos st))" by simp
  have all: "\<forall>u \<in> set (map ?f (todos st)). id_todo u = id_todo t \<longrightarrow> completed u"
    by auto
  have c3: "\<not> gateway_ok r \<longrightarrow>
            todos ?st = todos st \<and> t \<in> set (todos ?st)
          \<and> toasts ?st = toasts st @ [error_toast ''Failed to update todo'']"
    using fail_todos fail_toasts assms(1) by simp
  have c4: "gateway_ok r \<longrightarrow>
            todos ?st = map ?f (todos st)
          \<and> t\<lparr>completed := True\<rparr> \<in> set (todos ?st)
          \<and> (\<forall>u \<in> set (todos ?st). id_todo u = id_todo t \<longrightarrow> completed u)"
  proof
    assume g: "gateway_ok r"
    have e: "todos ?st = map ?f (todos st)" using g by (rule ok_todos)
    show "todos ?st = map ?f (todos st)
          \<and> t\<lparr>completed := True\<rparr> \<in> set (todos ?st)
          \<and> (\<forall>u \<in> set (todos ?st). id_todo u = id_todo t \<longrightarrow> completed u)"
      unfolding e using mem all by (intro conjI refl)
  qed
  from c1 c2 c3 c4 show ?thesis by (intro conjI)
qed

text \<open>
  The amended C1 at the task \<open>milk\<close> of the store \<open>demo\<close>, for a request that is
  rejected and for one that is answered with \<open>ok\<close>.
\<close>

theorem toggle_waits_for_gateway_witness:
  "milk \<in> set (todos demo) \<and> \<not> completed milk
   \<and> todos (toggleTodo (id_todo milk) (completed milk) (FetchRejects ''offline'') demo)
       = todos demo
   \<and> milk\<lparr>completed := True\<rparr>
       \<in> set (todos (toggleTodo (id_todo milk) (completed milk)
                       (Response True (JsonRejects ''none'')) demo))"
proof -
  have m: "milk \<in> set (todos demo)" by (simp add: demo_def)
  have c: "\<not> completed milk" by (simp add: milk_def)
  have f: "\<not> gateway_ok (FetchRejects ''offline'')" by (simp add: gateway_ok_def)
  have g: "gateway_ok (Response True (JsonRejects ''none''))" by (simp add: gateway_ok_def)
  from toggle_waits_for_gateway [OF m c, of "FetchRejects ''offline''"] f
  have 1: "todos (toggleTodo (id_todo milk) (completed milk) (FetchRejects ''offline'') demo)
      = todos demo"
    by blast
  from toggle_waits_for_gateway [OF m c, of "Response True (JsonRejects ''none'')"] g
  have 2: "milk\<lparr>completed := True\<rparr>
       \<in> set (todos (toggleTodo (id_todo milk) (completed milk)
                       (Response True (JsonRejects ''none'')) demo))"
    by blast
  from m c 1 2 show ?thesis by (intro conjI)
qed

section \<open>Editing a task\<close>

text \<open>
  C5, as the specification states it, fails in its second half: the notification of a
  failed edit carries neither the kind of the mutation nor the id of the task. A failed
  edit of task 1 in the store \<open>demo\<close> shows one toast with the title \<open>Error\<close> and the
  description \<open>Failed to update todo\<close>, and a failed toggle of task 3 shows the very
  same toast.
\<close>

theorem edit_failure_toast_untagged:
  "toasts (editTodo (js ''1'') (js ''buy bread'') (FetchRejects ''offline'') demo)
     = [\<lparr>title = ''Error'', description = ''Failed to update todo'',
         variant = Some ''destructive''\<rparr>]
   \<and> toasts (editTodo (js ''1'') (js ''buy bread'') (FetchRejects ''offline'') demo)
     = toasts (toggleTodo (js ''3'') False (FetchRejects ''offline'') demo)"
  by (simp add: editTodo_def toggleTodo_def toggleTodo_begin_def editTodo_begin_def
      toasts_editTodo_resume toasts_toggleTodo_resume gateway_ok_def error_toast_def demo_def)

text \<open>
  C5, amended: when the request of \<open>editTodo(id, newBody)\<close> fails, the store is exactly
  what it was before the edit (it is not touched while the request is outstanding
  either), so the body of the task is its value from before the edit, and exactly one
  error toast is added: title \<open>Error\<close>, description \<open>Failed to update todo\<close>. The
  toast is the same for every id, and the same as the one of a failed toggle of any task.
\<close>

theorem edit_failure_keeps_store:
  assumes "\<not> gateway_ok r"
  shows "todos (editTodo_begin i newBody st) = todos st
       \<and> todos (editTodo i newBody r st) = todos st
       \<and> toasts (editTodo i newBody r st) = toasts st @ [error_toast ''Failed to update todo'']
       \<and> toasts (editTodo i newBody r st)
           = toasts (toggleTodo i' False r st)"
proof -
  have 1: "todos (editTodo_begin i newBody st) = todos st"
    by (simp add: editTodo_begin_def)
  have 2: "todos (editTodo i newBody r st) = todos st"
    using assms by (simp add: editTodo_def todos_editTodo_resume 1)
  have 3: "toasts (editTodo i newBody r st) = toasts st @ [error_toast ''Failed to update todo'']"
    using assms by (simp add: editTodo_def toasts_editTodo_resume editTodo_begin_def)
  have 4: "toasts (toggleTodo i' False r st) = toasts st @ [error_toast ''Failed to update todo'']"
    using assms by (simp add: toggleTodo_def toggleTodo_begin_def toasts_toggleTodo_resume)
  from 1 2 3 4 show ?thesis by simp
qed

text \<open>
  The amended C5 for the edit of \<open>buy milk\<close> to \<open>buy bread\<close> whose request is answered
  without \<open>ok\<close>.
\<close>

theorem edit_failure_keeps_store_witness:
  "\<not> gateway_ok (Response False (JsonRejects ''none''))
   \<and> todos (editTodo (js ''1'') (js ''buy bread'') (Response False (JsonRejects ''none'')) demo)
       = [milk, dog, book]
   \<and> body milk = js ''buy milk''"
proof -
  have f: "\<not> gateway_ok (Response False (JsonRejects ''none''))" by (simp add: gateway_ok_def)
  from edit_failure_keeps_store [OF f, of "js ''1''" "js ''buy bread''" demo]
  have "todos (editTodo (js ''1'') (js ''buy bread'') (Response False (JsonRejects ''none'')) demo)
      = todos demo" by blast
  then show ?thesis using f by (simp add: demo_def milk_def)
qed

text \<open>
  C10: \<open>editTodo\<close> checks nothing. For every \<open>newBody\<close> it sends the request
  \<open>PUT /todos/id\<close> with that body, whatever the request's outcome is later, and on a
  response with \<open>ok\<close> every task with the id is stored with \<open>newBody\<close> as it was
  given, untrimmed. Only \<open>handleSaveEdit\<close> filters: what it passes to \<open>onEdit\<close> is the
  trimmed draft, not empty and different from the task's body.
\<close>

theorem editTodo_no_validation:
  "requests (editTodo_begin i newBody st) = requests st @ [PUT_todo i newBody]
   \<and> requests (editTodo i newBody r st) = requests st @ [PUT_todo i newBody]
   \<and> todos (editTodo i newBody (Response True j) st)
       = map (\<lambda>todo. if id_todo todo = i then todo\<lparr>body := newBody\<rparr> else todo) (todos st)
   \<and> (\<forall>t \<in> set (todos st). id_todo t = i \<longrightarrow>
         t\<lparr>body := newBody\<rparr> \<in> set (todos (editTodo i newBody (Response True j) st)))
   \<and> (\<forall>i' b. fst (handleSaveEdit t s) = Some (i', b) \<longrightarrow>
         b \<noteq> [] \<and> b = trim (editValue s) \<and> b \<noteq> body t)"
proof -
  let ?f = "\<lambda>todo. if id_todo todo = i then todo\<lparr>body := newBody\<rparr> else todo"
  have 1: "requests (editTodo_begin i newBody st) = requests st @ [PUT_todo i newBody]"
    by (simp add: editTodo_begin_def)
  have 2: "requests (editTodo i newBody r st) = requests st @ [PUT_todo i newBody]"
    by (simp add: editTodo_def requests_editTodo_resume 1)
  have 3: "todos (editTodo i newBody (Response True j) st) = map ?f (todos st)"
    by (simp add: editTodo_def todos_editTodo_resume gateway_ok_def editTodo_begin_def)
  have 4: "\<forall>t \<in> set (todos st). id_todo t = i \<longrightarrow>
         t\<lparr>body := newBody\<rparr> \<in> set (todos (editTodo i newBody (Response True j) st))"
  proof (intro ballI impI)
    fix u assume u: "u \<in> set (todos st)" and "id_todo u = i"
    then have "?f u = u\<lparr>body := newBody\<rparr>" by simp
    moreover have "?f u \<in> ?f ` set (todos st)" using u by (rule imageI)
    ultimately show "u\<lparr>body := newBody\<rparr> \<in> set (todos (editTodo i newBody (Response True j) st))"
      by (simp add: 3)
  qed
  have 5: "\<forall>i' b. fst (handleSaveEdit t s) = Some (i', b) \<longrightarrow>
         b \<noteq> [] \<and> b = trim (editValue s) \<and> b \<noteq> body t"
    by (auto simp: handleSaveEdit_def split: if_splits)
  from 1 2 3 4 5 show ?thesis by (intro conjI)
qed

text \<open>
  C10 at the store \<open>demo\<close>: an empty body and a body with blanks around it are stored as
  they are, an unchanged body is sent and stored again, and a body of two blanks is sent.
\<close>

theorem editTodo_no_validation_witness:
  "todos (editTodo (js ''1'') [] (Response True (JsonRejects ''none'')) demo)
     = [milk\<lparr>body := []\<rparr>, dog, book]
   \<and> todos (editTodo (js ''1'') (js '' buy milk '') (Response True (JsonRejects ''none'')) demo)
     = [milk\<lparr>body := js '' buy milk ''\<rparr>, dog, book]
   \<and> todos (editTodo (js ''1'') (js ''buy milk'') (Response True (JsonRejects ''none'')) demo)
     = [milk, dog, book]
   \<and> requests (editTodo (js ''1'') (js ''  '') (FetchRejects ''offline'') demo)
     = [PUT_todo (js ''1'') (js ''  '')]"
proof -
  note e = editTodo_no_validation [of _ _ demo _ "JsonRejects ''none''"]
  have ids: "id_todo milk = js ''1''" "id_todo dog \<noteq> js ''1''" "id_todo book \<noteq> js ''1''"
    by (simp_all add: milk_def dog_def book_def js_def)
  have t: "todos demo = [milk, dog, book]" and q: "requests demo = []"
    by (simp_all add: demo_def)
  have 1: "todos (editTodo (js ''1'') [] (Response True (JsonRejects ''none'')) demo)
     = [milk\<lparr>body := []\<rparr>, dog, book]"
    using e [of "js ''1''" "[]"] ids by (simp add: t)
  have 2: "todos (editTodo (js ''1'') (js '' buy milk '') (Response True (JsonRejects ''none'')) demo)
     = [milk\<lparr>body := js '' buy milk ''\<rparr>, dog, book]"
    using e [of "js ''1''" "js '' buy milk ''"] ids by (simp add: t)
  have 3: "todos (editTodo (js ''1'') (js ''buy milk'') (Response True (JsonRejects ''none'')) demo)
     = [milk, dog, book]"
    using e [of "js ''1''" "js ''buy milk''"] ids by (simp add: t milk_def)
  have 4: "requests (editTodo (js ''1'') (js ''  '') (FetchRejects ''offline'') demo)
     = [PUT_todo (js ''1'') (js ''  '')]"
    using e [of "js ''1''" "js ''  ''" "FetchRejects ''offline''"] by (simp add: q)
  from 1 2 3 4 show ?thesis by (intro conjI)
qed

section \<open>Creating a task\<close>

text \<open>
  C7: when the text of the input field is empty after trimming, \<open>createTodo\<close> returns
  before it sends anything, and the whole state (the store, the requests sent, the
  toasts, the \<open>creating\<close> flag) is what it was, whatever the gateway would have answered.
\<close>

theorem createTodo_rejects_blank:
  assumes "trim (newTodo st) = []"
  shows "createTodo_begin st = None \<and> createTodo r st = st"
  using assms by (simp add: createTodo_def createTodo_begin_def)

text \<open>C7 for the input of three blanks.\<close>

theorem createTodo_rejects_blank_witness:
  "newTodo demo = js ''   '' \<and> trim (newTodo demo) = []
   \<and> createTodo (Response True (JsonValue milk)) demo = demo
   \<and> todos (createTodo (Response True (JsonValue milk)) demo) = todos demo
   \<and> requests (createTodo (Response True (JsonValue milk)) demo) = []"
proof -
  have n: "newTodo demo = js ''   ''" by (simp add: demo_def)
  have b: "trim (newTodo demo) = []"
    by (simp add: n trim_def js_def isWhiteSpace_def)
  from createTodo_rejects_blank [OF b, of "Response True (JsonValue milk)"]
  have e: "createTodo (Response True (JsonValue milk)) demo = demo" by blast
  have q: "requests demo = []" by (simp add: demo_def)
  from n b e q show ?thesis by (simp only: simp_thms)
qed

text \<open>The check rejects nothing else: any other text is sent, trimmed.\<close>

lemma createTodo_accepts_nonblank:
  assumes "trim (newTodo st) \<noteq> []"
  shows "requests (createTodo r st) = requests st @ [POST_todos (trim (newTodo st)) False]"
  using assms
  by (simp add: createTodo_def createTodo_begin_def createTodo_resume_def catch_error_def
      split: fetch_result.split json_result.split)

section \<open>The inline editor\<close>

text \<open>
  C8: a save in the inline editor trims the draft and calls \<open>onEdit\<close>, that is
  \<open>editTodo\<close>, with the task's id and the trimmed draft exactly when the trimmed draft is
  not empty and differs from the task's body: then the request \<open>PUT /todos/id\<close> is sent.
  Otherwise nothing is sent and the state of the page is unchanged. The store is not
  changed by the save in either case, and the editor is always closed, its draft reset
  to the task's body.
\<close>

theorem saveEdit_commits_iff_changed:
  "saveEdit_onEdit todo s st =
     (\<lparr>isEditing = False, editValue = body todo\<rparr>,
      if trim (editValue s) \<noteq> [] \<and> trim (editValue s) \<noteq> body todo
      then st\<lparr>requests := requests st @ [PUT_todo (id_todo todo) (trim (editValue s))]\<rparr>
      else st)
   \<and> fst (handleSaveEdit todo s) =
       (if trim (editValue s) \<noteq> [] \<and> trim (editValue s) \<noteq> body todo
        then Some (id_todo todo, trim (editValue s)) else None)
   \<and> isEditing (snd (handleSaveEdit todo s)) = False
   \<and> todos (snd (saveEdit_onEdit todo s st)) = todos st"
  by (simp add: saveEdit_onEdit_def handleSaveEdit_def editTodo_begin_def)

text \<open>
  C8 at the task \<open>milk\<close>: a changed draft is sent trimmed; a draft equal to the body
  after trimming and a blank draft are dropped.
\<close>

theorem saveEdit_commits_iff_changed_witness:
  "saveEdit_onEdit milk \<lparr>isEditing = True, editValue = js '' buy bread ''\<rparr> demo
     = (\<lparr>isEditing = False, editValue = js ''buy milk''\<rparr>,
        demo\<lparr>requests := [PUT_todo (js ''1'') (js ''buy bread'')]\<rparr>)
   \<and> saveEdit_onEdit milk \<lparr>isEditing = True, editValue = js '' buy milk ''\<rparr> demo
     = (\<lparr>isEditing = False, editValue = js ''buy milk''\<rparr>, demo)
   \<and> saveEdit_onEdit milk \<lparr>isEditing = True, editValue = js ''  ''\<rparr> demo
     = (\<lparr>isEditing = False, editValue = js ''buy milk''\<rparr>, demo)"
proof -
  have t1: "trim (js '' buy bread '') = js ''buy bread''"
    by (simp add: trim_def js_def isWhiteSpace_def)
  have t2: "trim (js '' buy milk '') = js ''buy milk''"
    by (simp add: trim_def js_def isWhiteSpace_def)
  have t3: "trim (js ''  '') = []"
    by (simp add: trim_def js_def isWhiteSpace_def)
  have ne: "js ''buy bread'' \<noteq> js ''buy milk''" "js ''buy bread'' \<noteq> []"
    by (simp_all add: js_def)
  have m: "body milk = js ''buy milk''" "id_todo milk = js ''1''"
    by (simp_all add: milk_def)
  have q: "requests demo = []" by (simp add: demo_def)
  have 1: "saveEdit_onEdit milk \<lparr>isEditing = True, editValue = js '' buy bread ''\<rparr> demo
     = (\<lparr>isEditing = False, editValue = js ''buy milk''\<rparr>,
        demo\<lparr>requests := [PUT_todo (js ''1'') (js ''buy bread'')]\<rparr>)"
    using saveEdit_commits_iff_changed
      [of milk "\<lparr>isEditing = True, editValue = js '' buy bread ''\<rparr>" demo]
    by (simp add: t1 ne m q)
  have 2: "saveEdit_onEdit milk \<lparr>isEditing = True, editValue = js '' buy milk ''\<rparr> demo
     = (\<lparr>isEditing = False, editValue = js ''buy milk''\<rparr>, demo)"
    using saveEdit_commits_iff_changed
      [of milk "\<lparr>isEditing = True, editValue = js '' buy milk ''\<rparr>" demo]
    by (simp add: t2 m)
  have 3: "saveEdit_onEdit milk \<lparr>isEditing = True, editValue = js ''  ''\<rparr> demo
     = (\<lparr>isEditing = False, editValue = js ''buy milk''\<rparr>, demo)"
    using saveEdit_commits_iff_changed
      [of milk "\<lparr>isEditing = True, editValue = js ''  ''\<rparr>" demo]
    by (simp add: t3 m)
  from 1 2 3 show ?thesis by (intro conjI)
qed

section \<open>Mutations of different tasks\<close>

lemma todos_issue: "todos (issue m st) = todos st"
  by (cases m) (simp_all add: toggleTodo_begin_def editTodo_begin_def deleteTodo_begin_def)

lemma todos_settle_failed: "\<not> gateway_ok r \<Longrightarrow> todos (settle m r st) = todos st"
  by (cases m)
     (simp_all add: todos_toggleTodo_resume todos_editTodo_resume todos_deleteTodo_resume)

lemma todos_settle_cong:
  "todos st = todos st' \<Longrightarrow> todos (settle m r st) = todos (settle m r st')"
  by (cases m)
     (simp_all add: todos_toggleTodo_resume todos_editTodo_resume todos_deleteTodo_resume)

lemma others_rewrite:
  "(\<And>t. id_todo (g t) = id_todo t) \<Longrightarrow>
   others i (map (\<lambda>t. if id_todo t = i then g t else t) xs) = others i xs"
  by (induction xs) (simp_all add: others_def)

lemma others_filter: "others i (filter (\<lambda>t. id_todo t \<noteq> i) xs) = others i xs"
  by (induction xs) (simp_all add: others_def)

lemma others_settle: "others (target m) (todos (settle m r st)) = others (target m) (todos st)"
proof (cases m)
  case (Toggle i)
  then show ?thesis
    by (simp add: todos_toggleTodo_resume others_rewrite [where g = "\<lambda>t. t\<lparr>completed := True\<rparr>"])
next
  case (Edit i b)
  then show ?thesis
    by (simp add: todos_editTodo_resume others_rewrite [where g = "\<lambda>t. t\<lparr>body := b\<rparr>"])
next
  case (Delete i)
  then show ?thesis by (simp add: todos_deleteTodo_resume others_filter)
qed

text \<open>The tasks with a given id, after a mutation of another id has settled.\<close>

lemma same_id_others: "i \<noteq> k \<Longrightarrow> filter (\<lambda>t. id_todo t = k) (others i xs) = filter (\<lambda>t. id_todo t = k) xs"
  by (induction xs) (simp_all add: others_def)

lemma same_id_settle:
  assumes "target m \<noteq> k"
  shows "filter (\<lambda>t. id_todo t = k) (todos (settle m r st)) = filter (\<lambda>t. id_todo t = k) (todos st)"
proof -
  have "filter (\<lambda>t. id_todo t = k) (todos (settle m r st))
      = filter (\<lambda>t. id_todo t = k) (others (target m) (todos (settle m r st)))"
    using assms by (simp add: same_id_others)
  also have "\<dots> = filter (\<lambda>t. id_todo t = k) (others (target m) (todos st))"
    by (simp only: others_settle)
  also have "\<dots> = filter (\<lambda>t. id_todo t = k) (todos st)"
    using assms by (simp add: same_id_others)
  finally show ?thesis .
qed

lemma rewrite_commute:
  assumes "i \<noteq> k" and "\<And>t. id_todo (f t) = id_todo t" and "\<And>t. id_todo (g t) = id_todo t"
  shows "map (\<lambda>t. if id_todo t = i then f t else t) (map (\<lambda>t. if id_todo t = k then g t else t) xs)
       = map (\<lambda>t. if id_todo t = k then g t else t) (map (\<lambda>t. if id_todo t = i then f t else t) xs)"
  using assms by (induction xs) simp_all

lemma rewrite_filter_commute:
  assumes "\<And>t. id_todo (f t) = id_todo t"
  shows "map (\<lambda>t. if id_todo t = i then f t else t) (filter (\<lambda>t. id_todo t \<noteq> k) xs)
       = filter (\<lambda>t. id_todo t \<noteq> k) (map (\<lambda>t. if id_todo t = i then f t else t) xs)"
  using assms by (induction xs) simp_all

lemma settle_commute:
  assumes "target m \<noteq> target m'"
  shows "todos (settle m r (settle m' r' st)) = todos (settle m' r' (settle m r st))"
proof (cases "gateway_ok r \<and> gateway_ok r'")
  case False
  show ?thesis
  proof (cases "gateway_ok r")
    case True
    with False have f: "todos (settle m' r' st) = todos st"
      and g: "todos (settle m' r' (settle m r st)) = todos (settle m r st)"
      by (simp_all add: todos_settle_failed)
    from f have "todos (settle m r (settle m' r' st)) = todos (settle m r st)"
      by (rule todos_settle_cong)
    with g show ?thesis by simp
  next
    case False
    then have f: "todos (settle m r st) = todos st"
      and g: "todos (settle m r (settle m' r' st)) = todos (settle m' r' st)"
      by (simp_all add: todos_settle_failed)
    from f have "todos (settle m' r' (settle m r st)) = todos (settle m' r' st)"
      by (rule todos_settle_cong)
    with g show ?thesis by simp
  qed
next
  case True
  note tg = rewrite_commute [where f = "\<lambda>t. t\<lparr>completed := True\<rparr>"]
    and ed = rewrite_commute [where f = "\<lambda>t. t\<lparr>body := b\<rparr>" for b]
    and tf = rewrite_filter_commute [where f = "\<lambda>t. t\<lparr>completed := True\<rparr>"]
    and ef = rewrite_filter_commute [where f = "\<lambda>t. t\<lparr>body := b\<rparr>" for b]
  show ?thesis
  proof (cases m)
    case (Toggle i)
    with True assms show ?thesis
      by (cases m')
         (simp_all add: todos_toggleTodo_resume todos_editTodo_resume todos_deleteTodo_resume
            tg [where g = "\<lambda>t. t\<lparr>completed := True\<rparr>"] tg [where g = "\<lambda>t. t\<lparr>body := b\<rparr>" for b] tf)
  next
    case (Edit i b)
    with True assms show ?thesis
      by (cases m')
         (simp_all add: todos_toggleTodo_resume todos_editTodo_resume todos_deleteTodo_resume
            ed [where g = "\<lambda>t. t\<lparr>completed := True\<rparr>"] ed [where g = "\<lambda>t. t\<lparr>body := b\<rparr>" for b] ef)
  next
    case (Delete i)
    with True assms show ?thesis
      by (cases m')
         (simp_all add: todos_toggleTodo_resume todos_editTodo_resume todos_deleteTodo_resume
            tf [symmetric] ef [symmetric] conj_commute)
  qed
qed


text \<open>
  C6: a mutation of the task with id A changes no stored task of another id and keeps
  the other tasks in their order. Sending its request does not touch the store. Once the
  request has settled, the tasks with an id other than A are, in order, what they were:
  an edit or a toggle rewrites only the entries with id A and a delete removes only
  those. A failed request leaves the whole store as it is. So for two pending mutations
  of different ids the order in which their requests settle makes no difference to the
  store, the tasks with the second id end as the second mutation alone leaves them
  whatever the outcome of the first, and when the first fails the store is what the
  second alone makes it.
\<close>

theorem mutations_frame:
  "todos (issue m st) = todos st
   \<and> others (target m) (todos (settle m r st)) = others (target m) (todos st)
   \<and> (\<not> gateway_ok r \<longrightarrow> todos (settle m r st) = todos st)
   \<and> (target m \<noteq> target m' \<longrightarrow>
        todos (settle m r (settle m' r' st)) = todos (settle m' r' (settle m r st))
      \<and> filter (\<lambda>t. id_todo t = target m') (todos (settle m r (settle m' r' st)))
          = filter (\<lambda>t. id_todo t = target m') (todos (settle m' r' st))
      \<and> (\<not> gateway_ok r \<longrightarrow>
            todos (settle m r (settle m' r' st)) = todos (settle m' r' st)
          \<and> todos (settle m' r' (settle m r st)) = todos (settle m' r' st)))"
proof -
  have 1: "todos (issue m st) = todos st" by (rule todos_issue)
  have 2: "others (target m) (todos (settle m r st)) = others (target m) (todos st)"
    by (rule others_settle)
  have 3: "\<not> gateway_ok r \<longrightarrow> todos (settle m r st) = todos st"
    by (simp add: todos_settle_failed)
  have 4: "target m \<noteq> target m' \<longrightarrow>
        todos (settle m r (settle m' r' st)) = todos (settle m' r' (settle m r st))
      \<and> filter (\<lambda>t. id_todo t = target m') (todos (settle m r (settle m' r' st)))
          = filter (\<lambda>t. id_todo t = target m') (todos (settle m' r' st))
      \<and> (\<not> gateway_ok r \<longrightarrow>
            todos (settle m r (settle m' r' st)) = todos (settle m' r' st)
          \<and> todos (settle m' r' (settle m r st)) = todos (settle m' r' st))"
  proof
    assume d: "target m \<noteq> target m'"
    have a: "todos (settle m r (settle m' r' st)) = todos (settle m' r' (settle m r st))"
      using d by (rule settle_commute)
    have b: "filter (\<lambda>t. id_todo t = target m') (todos (settle m r (settle m' r' st)))
          = filter (\<lambda>t. id_todo t = target m') (todos (settle m' r' st))"
      using d by (rule same_id_settle)
    have c: "\<not> gateway_ok r \<longrightarrow>
            todos (settle m r (settle m' r' st)) = todos (settle m' r' st)
          \<and> todos (settle m' r' (settle m r st)) = todos (settle m' r' st)"
    proof
      assume f: "\<not> gateway_ok r"
      then have x: "todos (settle m r (settle m' r' st)) = todos (settle m' r' st)"
        by (rule todos_settle_failed)
      with a show "todos (settle m r (settle m' r' st)) = todos (settle m' r' st)
          \<and> todos (settle m' r' (settle m r st)) = todos (settle m' r' st)"
        by simp
    qed
    from a b c show "todos (settle m r (settle m' r' st)) = todos (settle m' r' (settle m r st))
      \<and> filter (\<lambda>t. id_todo t = target m') (todos (settle m r (settle m' r' st)))
          = filter (\<lambda>t. id_todo t = target m') (todos (settle m' r' st))
      \<and> (\<not> gateway_ok r \<longrightarrow>
            todos (settle m r (settle m' r' st)) = todos (settle m' r' st)
          \<and> todos (settle m' r' (settle m r st)) = todos (settle m' r' st))"
      by (intro conjI)
  qed
  from 1 2 3 4 show ?thesis by (intro conjI)
qed

text \<open>
  C6 for a delete of task 1 and an edit of task 3, both sent before either settles: the
  delete fails, the edit succeeds, in both orders.
\<close>

theorem mutations_frame_witness:
  "target (Delete (js ''1'')) \<noteq> target (Edit (js ''3'') (js ''new''))
   \<and> \<not> gateway_ok (FetchRejects ''offline'')
   \<and> todos (settle (Delete (js ''1'')) (FetchRejects ''offline'')
        (settle (Edit (js ''3'') (js ''new'')) (Response True (JsonRejects ''none''))
           (issue (Edit (js ''3'') (js ''new'')) (issue (Delete (js ''1'')) demo))))
     = [milk, dog, book\<lparr>body := js ''new''\<rparr>]
   \<and> todos (settle (Edit (js ''3'') (js ''new'')) (Response True (JsonRejects ''none''))
        (settle (Delete (js ''1'')) (FetchRejects ''offline'')
           (issue (Edit (js ''3'') (js ''new'')) (issue (Delete (js ''1'')) demo))))
     = [milk, dog, book\<lparr>body := js ''new''\<rparr>]"
proof -
  let ?d = "Delete (js ''1'')" and ?e = "Edit (js ''3'') (js ''new'')"
  let ?ok = "Response True (JsonRejects ''none'')" and ?no = "FetchRejects ''offline''"
  let ?st = "issue ?e (issue ?d demo)"
  have t: "target ?d \<noteq> target ?e" by (simp add: js_def)
  have f: "\<not> gateway_ok ?no" by (simp add: gateway_ok_def)
  have ids: "id_todo milk \<noteq> js ''3''" "id_todo dog \<noteq> js ''3''" "id_todo book = js ''3''"
    by (simp_all add: milk_def dog_def book_def js_def)
  have e: "todos (settle ?e ?ok ?st) = [milk, dog, book\<lparr>body := js ''new''\<rparr>]"
    using ids
    by (simp add: todos_editTodo_resume gateway_ok_def editTodo_begin_def deleteTodo_begin_def
        demo_def)
  from mutations_frame [of ?d ?st ?no ?e ?ok] t f
  have "todos (settle ?d ?no (settle ?e ?ok ?st)) = todos (settle ?e ?ok ?st)"
    and "todos (settle ?e ?ok (settle ?d ?no ?st)) = todos (settle ?e ?ok ?st)"
    by blast+
  with e t f show ?thesis by (simp only: simp_thms)
qed

section \<open>Facts about the reorder\<close>

lemma arrayMove_absent_source:
  assumes "xs \<noteq> []" "j < length xs"
  shows "arrayMove xs (- 1) (int j) = Inr (move_spec (length xs - 1) j xs)"
proof -
  let ?l = "length xs - 1"
  from assms(1) have l: "?l < length xs" by (cases xs) simp_all
  then have n: "nat (max (int (length xs) - 1) 0) = ?l" by simp
  have rm: "splice xs (- 1) 1 [] = (remove_at ?l xs, [xs ! ?l])"
    using l by (simp add: splice_def remove_at_def Let_def n flip: Cons_nth_drop_Suc)
  have len: "length (remove_at ?l xs) = length xs - 1"
    using l by (rule length_remove_at)
  have ins: "fst (splice (remove_at ?l xs) (int j) 0 [xs ! ?l])
      = insert_at j (xs ! ?l) (remove_at ?l xs)"
    using assms len by (simp add: splice_def insert_at_def Let_def min_def)
  show ?thesis
    using rm ins by (simp add: arrayMove_def move_spec_def)
qed

lemma arrayMove_absent_target:
  assumes "i < length xs"
  shows "arrayMove xs (int i) (- 1) = Inr (move_spec i (length xs - 1) xs)"
proof -
  let ?l = "length xs - 1"
  have rm: "splice xs (int i) 1 [] = (remove_at i xs, [xs ! i])"
    using assms by (simp add: splice_def remove_at_def Let_def flip: Cons_nth_drop_Suc)
  have len: "length (remove_at i xs) = ?l"
    using assms by (rule length_remove_at)
  have n: "nat (int (length xs) - 1) = ?l" using assms by simp
  have ins: "fst (splice (remove_at i xs) (int (length xs) - 1) 0 [xs ! i])
      = insert_at ?l (xs ! i) (remove_at i xs)"
    using assms len by (simp add: splice_def insert_at_def Let_def min_def n)
  show ?thesis
    using rm ins by (simp add: arrayMove_def move_spec_def)
qed

lemma arrayMove_empty: "arrayMove [] from to = Inl UndefinedEntry"
  by (simp add: arrayMove_def splice_def)

lemma findIndex_present:
  assumes "\<exists>x \<in> set xs. P x"
  shows "\<exists>k < length xs. findIndex P xs = int k \<and> P (xs ! k)"
  using assms
proof (induction xs)
  case Nil
  then show ?case by simp
next
  case (Cons x xs)
  show ?case
  proof (cases "P x")
    case True
    then have "findIndex P (x # xs) = int 0 \<and> P ((x # xs) ! 0)" by simp
    then show ?thesis by blast
  next
    case False
    with Cons.prems have "\<exists>y \<in> set xs. P y" by simp
    then obtain k where k: "k < length xs" "findIndex P xs = int k" "P (xs ! k)"
      using Cons.IH by blast
    with False have "findIndex P (x # xs) = int (Suc k) \<and> P ((x # xs) ! Suc k)"
      by (simp add: Let_def)
    moreover from k(1) have "Suc k < length (x # xs)" by simp
    ultimately show ?thesis by blast
  qed
qed

lemma handleDragEnd_move:
  assumes "src \<noteq> tgt"
    and "findIndex (\<lambda>item. id_todo item = src) (todos st) = int i"
    and "findIndex (\<lambda>item. id_todo item = tgt) (todos st) = int j"
    and "i < length (todos st)" and "j < length (todos st)"
  shows "handleDragEnd \<lparr>active = src, over = Some tgt\<rparr> st
       = Inr (st\<lparr>todos := move_spec i j (todos st)\<rparr>)"
  using assms by (simp add: handleDragEnd_def Let_def arrayMove_in_range)

lemma handleDragEnd_no_move:
  "handleDragEnd \<lparr>active = a, over = None\<rparr> st = Inr st"
  "handleDragEnd \<lparr>active = a, over = Some a\<rparr> st = Inr st"
  by (simp_all add: handleDragEnd_def)

lemma handleDragEnd_absent_source:
  assumes "src \<noteq> tgt"
    and "findIndex (\<lambda>item. id_todo item = src) (todos st) = - 1"
    and "findIndex (\<lambda>item. id_todo item = tgt) (todos st) = int j"
    and "j < length (todos st)"
  shows "handleDragEnd \<lparr>active = src, over = Some tgt\<rparr> st
       = Inr (st\<lparr>todos := move_spec (length (todos st) - 1) j (todos st)\<rparr>)"
proof -
  from assms(4) have "todos st \<noteq> []" by auto
  then have "arrayMove (todos st) (- 1) (int j)
      = Inr (move_spec (length (todos st) - 1) j (todos st))"
    using assms(4) by (rule arrayMove_absent_source)
  with assms(1-3) show ?thesis by (simp add: handleDragEnd_def Let_def)
qed

lemma handleDragEnd_absent_target:
  assumes "src \<noteq> tgt"
    and "findIndex (\<lambda>item. id_todo item = src) (todos st) = int i"
    and "findIndex (\<lambda>item. id_todo item = tgt) (todos st) = - 1"
    and "i < length (todos st)"
  shows "handleDragEnd \<lparr>active = src, over = Some tgt\<rparr> st
       = Inr (st\<lparr>todos := move_spec i (length (todos st) - 1) (todos st)\<rparr>)"
proof -
  from assms(4) have "arrayMove (todos st) (int i) (- 1)
      = Inr (move_spec i (length (todos st) - 1) (todos st))"
    by (rule arrayMove_absent_target)
  with assms(1-3) show ?thesis by (simp add: handleDragEnd_def Let_def)
qed

lemma splice_remove_one:
  assumes "splice xs from 1 [] = (ys, x # rest)"
  shows "\<exists>a < length xs. x = xs ! a \<and> ys = remove_at a xs"
proof -
  define s0 where "s0 = (if from < 0 then max (int (length xs) + from) 0 else min from (int (length xs)))"
  define a where "a = nat s0"
  define d where "d = nat (min (max 1 0) (int (length xs) - s0))"
  have sp: "splice xs from 1 [] = (take a xs @ [] @ drop (a + d) xs, take d (drop a xs))"
    by (simp only: splice_def Let_def s0_def a_def d_def)
  have d_le: "d \<le> 1" unfolding d_def by linarith
  from sp assms have r: "take d (drop a xs) = x # rest" and y: "ys = take a xs @ drop (a + d) xs"
    by simp_all
  from r have "d \<noteq> 0" by (cases "d = 0") simp_all
  with d_le have d1: "d = 1" by linarith
  from r have al: "a < length xs" by (cases "a < length xs") simp_all
  then have "drop a xs = xs ! a # drop (Suc a) xs"
    by (simp add: Cons_nth_drop_Suc)
  with r d1 have "x = xs ! a" by simp
  moreover from y d1 have "ys = remove_at a xs" by (simp add: remove_at_def)
  ultimately show ?thesis using al by blast
qed

lemma splice_insert_one: "\<exists>s. fst (splice ys start 0 [x]) = insert_at s x ys"
proof -
  define s0 where "s0 = (if start < 0 then max (int (length ys) + start) 0 else min start (int (length ys)))"
  have z: "nat (min (max 0 0) (int (length ys) - s0)) = 0" by simp
  have "fst (splice ys start 0 [x]) = insert_at (nat s0) x ys"
    unfolding splice_def Let_def insert_at_def s0_def [symmetric] z by simp
  then show ?thesis ..
qed

lemma arrayMove_unfold:
  assumes "splice xs from 1 [] = (zs, removed)"
  shows "arrayMove xs from to =
     (case removed of
        [] \<Rightarrow> Inl UndefinedEntry
      | x # rest \<Rightarrow> Inr (fst (splice zs (if to < 0 then int (length xs) + to else to) 0 [x])))"
  unfolding arrayMove_def Let_def assms by (simp only: prod.case)

lemma arrayMove_mset:
  assumes "arrayMove xs from to = Inr ys"
  shows "mset ys = mset xs"
proof -
  obtain zs removed where sp: "splice xs from 1 [] = (zs, removed)"
    by (cases "splice xs from 1 []")
  note u = arrayMove_unfold [OF sp, of to]
  show ?thesis
  proof (cases removed)
    case Nil
    from u have "arrayMove xs from to = Inl UndefinedEntry"
      by (simp only: Nil list.case)
    with assms show ?thesis by simp
  next
    case (Cons x rest)
    from sp have "splice xs from 1 [] = (zs, x # rest)" by (simp only: Cons)
    then have "\<exists>a < length xs. x = xs ! a \<and> zs = remove_at a xs"
      by (rule splice_remove_one)
    then obtain a where a: "a < length xs" and x: "x = xs ! a" and zs: "zs = remove_at a xs"
      by (elim exE conjE)
    obtain s where s: "fst (splice zs (if to < 0 then int (length xs) + to else to) 0 [x])
        = insert_at s x zs"
      using splice_insert_one [of zs "if to < 0 then int (length xs) + to else to" x]
      by (elim exE)
    from u have "arrayMove xs from to = Inr (insert_at s x zs)"
      by (simp only: Cons list.case s)
    with assms have ys: "ys = insert_at s x zs" by simp
    have "mset ys = add_mset (xs ! a) (mset (remove_at a xs))"
      by (simp only: ys mset_insert_at x zs)
    also have "\<dots> = mset xs" using a by (rule mset_remove_at)
    finally show ?thesis .
  qed
qed

lemma handleDragEnd_cases:
  assumes "handleDragEnd e st = Inr st'"
  shows "st' = st \<or>
    (\<exists>ys. arrayMove (todos st) (findIndex (\<lambda>item. id_todo item = active e) (todos st))
             (findIndex (\<lambda>item. id_todo item = the (over e)) (todos st)) = Inr ys
         \<and> st' = st\<lparr>todos := ys\<rparr>)"
proof (cases "over e")
  case None
  with assms show ?thesis by (simp add: handleDragEnd_def)
next
  case (Some o_id)
  show ?thesis
  proof (cases "active e = o_id")
    case True
    with Some assms show ?thesis by (simp add: handleDragEnd_def)
  next
    case False
    let ?m = "arrayMove (todos st) (findIndex (\<lambda>item. id_todo item = active e) (todos st))
             (findIndex (\<lambda>item. id_todo item = o_id) (todos st))"
    from Some False assms have c: "(case ?m of Inl e \<Rightarrow> Inl e | Inr items' \<Rightarrow> Inr (st\<lparr>todos := items'\<rparr>)) = Inr st'"
      by (simp add: handleDragEnd_def Let_def)
    then obtain ys where "?m = Inr ys" "st' = st\<lparr>todos := ys\<rparr>"
      by (cases ?m) auto
    with Some show ?thesis by simp
  qed
qed

lemma handleDragEnd_mset:
  assumes "handleDragEnd e st = Inr st'"
  shows "mset (todos st') = mset (todos st)"
  using handleDragEnd_cases [OF assms] by (auto dest: arrayMove_mset)

lemma handleDragEnd_requests:
  assumes "handleDragEnd e st = Inr st'"
  shows "requests st' = requests st"
  using handleDragEnd_cases [OF assms] by auto

section \<open>Completed tasks stay completed\<close>

lemma same_id_same_task:
  assumes "distinct (map id_todo xs)" "t \<in> set xs" "u \<in> set xs" "id_todo u = id_todo t"
  shows "u = t"
proof -
  from assms(1) have "inj_on id_todo (set xs)" by (simp add: distinct_map)
  with assms(2-4) show ?thesis by (simp add: inj_on_def)
qed

lemma stays_completed_subset:
  assumes "distinct (map id_todo before)" "set after \<subseteq> set before"
  shows "stays_completed before after"
  unfolding stays_completed_def
proof (intro ballI impI)
  fix t u
  assume t: "t \<in> set before" "completed t" and u: "u \<in> set after" "id_todo u = id_todo t"
  from u(1) assms(2) have "u \<in> set before" by blast
  then have "u = t" using same_id_same_task [OF assms(1) t(1) _ u(2)] by blast
  with t(2) show "completed u" by simp
qed

lemma stays_completed_map:
  assumes "distinct (map id_todo before)"
    and "\<And>t. id_todo (f t) = id_todo t" and "\<And>t. completed t \<Longrightarrow> completed (f t)"
  shows "stays_completed before (map f before)"
  unfolding stays_completed_def
proof (intro ballI impI)
  fix t u
  assume t: "t \<in> set before" "completed t" and u: "u \<in> set (map f before)" "id_todo u = id_todo t"
  from u(1) obtain v where v: "v \<in> set before" "u = f v" by auto
  with u(2) assms(2) have "id_todo v = id_todo t" by simp
  then have "v = t" using same_id_same_task [OF assms(1) t(1) v(1)] by blast
  with v(2) t(2) assms(3) show "completed u" by simp
qed

lemma stays_completed_Cons:
  assumes "distinct (map id_todo (c # before))"
  shows "stays_completed before (c # before)"
  unfolding stays_completed_def
proof (intro ballI impI)
  fix t u
  assume t: "t \<in> set before" "completed t" and u: "u \<in> set (c # before)" "id_todo u = id_todo t"
  from assms have d: "distinct (map id_todo before)" and n: "id_todo c \<notin> id_todo ` set before"
    by simp_all
  from n t(1) have "id_todo c \<noteq> id_todo t" by blast
  with u have "u \<in> set before" by auto
  then have "u = t" using same_id_same_task [OF d t(1) _ u(2)] by blast
  with t(2) show "completed u" by simp
qed

lemma todos_createTodo:
  "todos (createTodo r st) = todos st \<or> (\<exists>c. todos (createTodo r st) = c # todos st)"
  by (simp add: createTodo_def createTodo_begin_def createTodo_resume_def todos_catch_error
      split: fetch_result.split json_result.split)

lemma todos_toggleTodo:
  "todos (toggleTodo i c r st) = todos st
   \<or> todos (toggleTodo i c r st)
       = map (\<lambda>todo. if id_todo todo = i then todo\<lparr>completed := True\<rparr> else todo) (todos st)"
  by (simp add: toggleTodo_def toggleTodo_begin_def todos_toggleTodo_resume)

lemma todos_editTodo:
  "todos (editTodo i b r st) = todos st
   \<or> todos (editTodo i b r st)
       = map (\<lambda>todo. if id_todo todo = i then todo\<lparr>body := b\<rparr> else todo) (todos st)"
  by (simp add: editTodo_def editTodo_begin_def todos_editTodo_resume)

lemma todos_deleteTodo:
  "set (todos (deleteTodo i r st)) \<subseteq> set (todos st)"
  by (simp add: deleteTodo_def deleteTodo_begin_def todos_deleteTodo_resume)

lemma stays_completed_refl: "distinct (map id_todo xs) \<Longrightarrow> stays_completed xs xs"
  by (rule stays_completed_subset) simp_all

text \<open>
  C4: the \<open>completed\<close> flag only ever goes from false to true. \<open>toggleTodo\<close> called
  for a task that is already completed returns at once: nothing is sent and the state
  is what it was. And in a store with unique ids no handler turns a completed task into
  an uncompleted one: after a toggle, an edit or a delete, whatever the request's
  outcome, after a create (the store then still having unique ids, that is, the created
  task's id being new) and after a reorder, every stored task with the id of a task that
  was completed before is completed.
\<close>

theorem completed_is_monotone:
  assumes "distinct (map id_todo (todos st))"
  shows "toggleTodo_begin i True st = None
       \<and> toggleTodo i True r st = st
       \<and> stays_completed (todos st) (todos (toggleTodo i c r st))
       \<and> stays_completed (todos st) (todos (editTodo i b r st))
       \<and> stays_completed (todos st) (todos (deleteTodo i r st))
       \<and> (distinct (map id_todo (todos (createTodo r st))) \<longrightarrow>
            stays_completed (todos st) (todos (createTodo r st)))
       \<and> (\<forall>st'. handleDragEnd e st = Inr st' \<longrightarrow> stays_completed (todos st) (todos st'))"
proof -
  note refl = stays_completed_refl [OF assms]
  have 1: "toggleTodo_begin i True st = None" by (simp add: toggleTodo_begin_def)
  have 2: "toggleTodo i True r st = st" by (simp add: toggleTodo_def 1)
  have "stays_completed (todos st)
      (map (\<lambda>todo. if id_todo todo = i then todo\<lparr>completed := True\<rparr> else todo) (todos st))"
    using assms by (rule stays_completed_map) simp_all
  with refl todos_toggleTodo [of i c r st]
  have 3: "stays_completed (todos st) (todos (toggleTodo i c r st))" by auto
  have "stays_completed (todos st)
      (map (\<lambda>todo. if id_todo todo = i then todo\<lparr>body := b\<rparr> else todo) (todos st))"
    using assms by (rule stays_completed_map) simp_all
  with refl todos_editTodo [of i b r st]
  have 4: "stays_completed (todos st) (todos (editTodo i b r st))" by auto
  have 5: "stays_completed (todos st) (todos (deleteTodo i r st))"
    using assms todos_deleteTodo by (rule stays_completed_subset)
  have 6: "distinct (map id_todo (todos (createTodo r st))) \<longrightarrow>
            stays_completed (todos st) (todos (createTodo r st))"
  proof
    assume d: "distinct (map id_todo (todos (createTodo r st)))"
    from todos_createTodo [of r st]
    show "stays_completed (todos st) (todos (createTodo r st))"
    proof
      assume "todos (createTodo r st) = todos st"
      with refl show ?thesis by simp
    next
      assume "\<exists>c. todos (createTodo r st) = c # todos st"
      then obtain c where c: "todos (createTodo r st) = c # todos st" ..
      with d have "distinct (map id_todo (c # todos st))" by simp
      then have "stays_completed (todos st) (c # todos st)" by (rule stays_completed_Cons)
      with c show ?thesis by simp
    qed
  qed
  have 7: "\<forall>st'. handleDragEnd e st = Inr st' \<longrightarrow> stays_completed (todos st) (todos st')"
  proof (intro allI impI)
    fix st' assume "handleDragEnd e st = Inr st'"
    then have "mset (todos st') = mset (todos st)" by (rule handleDragEnd_mset)
    then have "set (todos st') = set (todos st)" by (rule mset_eq_setD)
    then have "set (todos st') \<subseteq> set (todos st)" by simp
    with assms show "stays_completed (todos st) (todos st')" by (rule stays_completed_subset)
  qed
  from 1 2 3 4 5 6 7 show ?thesis by (intro conjI)
qed


text \<open>
  C4 at the store \<open>demo\<close>, whose task \<open>dog\<close> is completed: a toggle of it changes
  nothing, and it stays completed when it is edited and when it is dragged to the front.
\<close>

theorem completed_is_monotone_witness:
  "distinct (map id_todo (todos demo))
   \<and> completed dog
   \<and> toggleTodo (id_todo dog) (completed dog) (Response True (JsonRejects ''none'')) demo = demo
   \<and> stays_completed (todos demo)
        (todos (editTodo (js ''2'') (js ''walk'') (Response True (JsonRejects ''none'')) demo))
   \<and> handleDragEnd \<lparr>active = js ''2'', over = Some (js ''1'')\<rparr> demo
        = Inr (demo\<lparr>todos := [dog, milk, book]\<rparr>)
   \<and> stays_completed (todos demo) [dog, milk, book]"
proof -
  let ?ok = "Response True (JsonRejects ''none'')"
  let ?e = "\<lparr>active = js ''2'', over = Some (js ''1'')\<rparr>"
  have d: "distinct (map id_todo (todos demo))"
    by (simp add: todos_demo demo_ids js_inject)
  have c: "completed dog" by (simp add: dog_def)
  have "handleDragEnd ?e demo = Inr (demo\<lparr>todos := move_spec 1 0 (todos demo)\<rparr>)"
    by (rule handleDragEnd_move) (simp_all add: todos_demo demo_ids js_inject)
  then have h: "handleDragEnd ?e demo = Inr (demo\<lparr>todos := [dog, milk, book]\<rparr>)"
    by (simp add: todos_demo move_spec_def insert_at_def remove_at_def)
  note m = completed_is_monotone [OF d, of "js ''2''" ?ok False "js ''walk''" ?e]
  from m have 1: "toggleTodo (js ''2'') True ?ok demo = demo" by (elim conjE)
  from m have 2: "stays_completed (todos demo) (todos (editTodo (js ''2'') (js ''walk'') ?ok demo))"
    by (elim conjE)
  from m have "\<forall>st'. handleDragEnd ?e demo = Inr st' \<longrightarrow> stays_completed (todos demo) (todos st')"
    by (elim conjE)
  with h have "stays_completed (todos demo) (todos (demo\<lparr>todos := [dog, milk, book]\<rparr>))"
    by blast
  then have 3: "stays_completed (todos demo) [dog, milk, book]" by simp
  have i: "id_todo dog = js ''2''" by (simp add: dog_def)
  from d c 1 2 h 3 show ?thesis by (simp only: i c simp_thms)
qed

section \<open>Reordering by drag and drop\<close>

text \<open>
  C3: for two different ids that are both in the store, \<open>handleDragEnd\<close> finds the
  index \<open>i\<close> of the first task with the source id and the index \<open>j\<close> of the first
  task with the target id, removes the task at \<open>i\<close> and reinserts it at \<open>j\<close>
  (\<open>move_spec\<close>, the move as the specification words it). The new store has the same
  length, the same tasks and so the same ids, the moved task at index \<open>j\<close>, and the
  other tasks in their order: without the moved task the two stores are equal. Nothing
  but the store changes; in particular no request is sent.
\<close>

theorem reorder_moves_source_to_target:
  assumes "sourceId \<noteq> targetId"
    and "sourceId \<in> id_todo ` set (todos st)"
    and "targetId \<in> id_todo ` set (todos st)"
  shows "\<exists>i j. i < length (todos st) \<and> j < length (todos st)
       \<and> findIndex (\<lambda>item. id_todo item = sourceId) (todos st) = int i
       \<and> findIndex (\<lambda>item. id_todo item = targetId) (todos st) = int j
       \<and> handleDragEnd \<lparr>active = sourceId, over = Some targetId\<rparr> st
           = Inr (st\<lparr>todos := move_spec i j (todos st)\<rparr>)
       \<and> requests (st\<lparr>todos := move_spec i j (todos st)\<rparr>) = requests st
       \<and> length (move_spec i j (todos st)) = length (todos st)
       \<and> mset (move_spec i j (todos st)) = mset (todos st)
       \<and> mset (map id_todo (move_spec i j (todos st))) = mset (map id_todo (todos st))
       \<and> move_spec i j (todos st) ! j = todos st ! i
       \<and> id_todo (move_spec i j (todos st) ! j) = sourceId
       \<and> remove_at j (move_spec i j (todos st)) = remove_at i (todos st)"
proof -
  let ?xs = "todos st"
  from assms(2) have "\<exists>x \<in> set ?xs. id_todo x = sourceId" by auto
  then obtain i where i: "i < length ?xs" "findIndex (\<lambda>item. id_todo item = sourceId) ?xs = int i"
    "id_todo (?xs ! i) = sourceId"
    using findIndex_present [of ?xs "\<lambda>item. id_todo item = sourceId"] by blast
  from assms(3) have "\<exists>x \<in> set ?xs. id_todo x = targetId" by auto
  then obtain j where j: "j < length ?xs" "findIndex (\<lambda>item. id_todo item = targetId) ?xs = int j"
    using findIndex_present [of ?xs "\<lambda>item. id_todo item = targetId"] by blast
  have h: "handleDragEnd \<lparr>active = sourceId, over = Some targetId\<rparr> st
           = Inr (st\<lparr>todos := move_spec i j ?xs\<rparr>)"
    using assms(1) i(2) j(2) i(1) j(1) by (rule handleDragEnd_move)
  have q: "requests (st\<lparr>todos := move_spec i j ?xs\<rparr>) = requests st" by simp
  have l: "length (move_spec i j ?xs) = length ?xs" using i(1) by (rule length_move_spec)
  have m: "mset (move_spec i j ?xs) = mset ?xs" using i(1) by (rule mset_move_spec)
  have "image_mset id_todo (mset (move_spec i j ?xs)) = image_mset id_todo (mset ?xs)"
    by (simp only: m)
  then have mi: "mset (map id_todo (move_spec i j ?xs)) = mset (map id_todo ?xs)" by simp
  have n: "move_spec i j ?xs ! j = ?xs ! i" using i(1) j(1) by (rule move_spec_nth_target)
  have ni: "id_todo (move_spec i j ?xs ! j) = sourceId" by (simp only: n i(3))
  have o: "remove_at j (move_spec i j ?xs) = remove_at i ?xs"
    using i(1) j(1) by (rule move_spec_others)
  from i(1) j(1) i(2) j(2) h q l m mi n ni o show ?thesis by blast
qed

text \<open>C3 for the drag of task 3, the last of the store \<open>demo\<close>, onto task 1, the first.\<close>

theorem reorder_moves_source_to_target_witness:
  "js ''3'' \<noteq> js ''1'' \<and> js ''3'' \<in> id_todo ` set (todos demo)
   \<and> js ''1'' \<in> id_todo ` set (todos demo)
   \<and> handleDragEnd \<lparr>active = js ''3'', over = Some (js ''1'')\<rparr> demo
       = Inr (demo\<lparr>todos := [book, milk, dog]\<rparr>)"
proof -
  have a: "js ''3'' \<noteq> js ''1''" by (simp add: js_inject)
  have b: "js ''3'' \<in> id_todo ` set (todos demo)" by (simp add: todos_demo demo_ids)
  have c: "js ''1'' \<in> id_todo ` set (todos demo)" by (simp add: todos_demo demo_ids)
  have fi: "findIndex (\<lambda>item. id_todo item = js ''3'') (todos demo) = int 2"
    and fj: "findIndex (\<lambda>item. id_todo item = js ''1'') (todos demo) = int 0"
    by (simp_all add: todos_demo demo_ids js_inject)
  from reorder_moves_source_to_target [OF a b c]
  obtain i j where "findIndex (\<lambda>item. id_todo item = js ''3'') (todos demo) = int i"
    and "findIndex (\<lambda>item. id_todo item = js ''1'') (todos demo) = int j"
    and h: "handleDragEnd \<lparr>active = js ''3'', over = Some (js ''1'')\<rparr> demo
           = Inr (demo\<lparr>todos := move_spec i j (todos demo)\<rparr>)"
    by blast
  with fi fj have "i = 2" "j = 0" by simp_all
  with h have "handleDragEnd \<lparr>active = js ''3'', over = Some (js ''1'')\<rparr> demo
           = Inr (demo\<lparr>todos := move_spec 2 0 (todos demo)\<rparr>)" by simp
  moreover have "move_spec 2 0 (todos demo) = [book, milk, dog]"
    by (simp add: todos_demo move_spec_def insert_at_def remove_at_def)
  ultimately have "handleDragEnd \<lparr>active = js ''3'', over = Some (js ''1'')\<rparr> demo
       = Inr (demo\<lparr>todos := [book, milk, dog]\<rparr>)" by simp
  with a b c show ?thesis by (intro conjI)
qed

text \<open>
  C9: in a store with unique ids, let X be the task at index \<open>i\<close> and Y the task at
  another index \<open>j\<close>. Dragging X onto Y moves X to index \<open>j\<close>; its original
  neighbour on the side of Y (its successor when \<open>i < j\<close>, its predecessor when
  \<open>j < i\<close>) then stands at index \<open>i\<close>, and dragging X back onto that neighbour gives
  the original state again, the store included.
\<close>

theorem reorder_round_trip:
  assumes "distinct (map id_todo (todos st))"
    and "i < length (todos st)" and "j < length (todos st)" and "i \<noteq> j"
  shows "handleDragEnd \<lparr>active = id_todo (todos st ! i), over = Some (id_todo (todos st ! j))\<rparr> st
           = Inr (st\<lparr>todos := move_spec i j (todos st)\<rparr>)
       \<and> handleDragEnd
            \<lparr>active = id_todo (todos st ! i),
             over = Some (id_todo (todos st ! (if i < j then Suc i else i - 1)))\<rparr>
            (st\<lparr>todos := move_spec i j (todos st)\<rparr>)
           = Inr st"
proof -
  let ?xs = "todos st"
  let ?ys = "move_spec i j ?xs"
  let ?n = "if i < j then Suc i else i - 1"
  let ?st1 = "st\<lparr>todos := ?ys\<rparr>"
  have n: "?n < length ?xs" "?n \<noteq> i" using assms(2-4) by auto
  have ids: "id_todo (?xs ! a) \<noteq> id_todo (?xs ! b)"
    if "a < length ?xs" "b < length ?xs" "a \<noteq> b" for a b
  proof -
    from that have "a < length (map id_todo ?xs)" "b < length (map id_todo ?xs)" by simp_all
    with assms(1) that(3) have "map id_todo ?xs ! a \<noteq> map id_todo ?xs ! b"
      using nth_eq_iff_index_eq [of "map id_todo ?xs" a b] by blast
    with that show ?thesis by simp
  qed
  \<comment> \<open>the first move\<close>
  have fi: "findIndex (\<lambda>item. id_todo item = id_todo (?xs ! i)) ?xs = int i"
    using assms(1,2) by (rule findIndex_distinct)
  have fj: "findIndex (\<lambda>item. id_todo item = id_todo (?xs ! j)) ?xs = int j"
    using assms(1,3) by (rule findIndex_distinct)
  have first: "handleDragEnd \<lparr>active = id_todo (?xs ! i), over = Some (id_todo (?xs ! j))\<rparr> st
      = Inr ?st1"
    using ids [OF assms(2,3,4)] fi fj assms(2,3) by (rule handleDragEnd_move)
  \<comment> \<open>the store after it\<close>
  have len: "length ?ys = length ?xs" using assms(2) by (rule length_move_spec)
  have "mset ?ys = mset ?xs" using assms(2) by (rule mset_move_spec)
  then have "image_mset id_todo (mset ?ys) = image_mset id_todo (mset ?xs)" by (simp only:)
  then have "mset (map id_todo ?ys) = mset (map id_todo ?xs)" by simp
  then have "distinct (map id_todo ?ys) = distinct (map id_todo ?xs)"
    by (rule mset_eq_imp_distinct_iff)
  with assms(1) have d: "distinct (map id_todo ?ys)" by simp
  have at_j: "?ys ! j = ?xs ! i" using assms(2,3) by (rule move_spec_nth_target)
  have at_i: "?ys ! i = ?xs ! ?n" using assms(2-4) by (rule move_spec_nth_source)
  \<comment> \<open>the move back\<close>
  have "findIndex (\<lambda>item. id_todo item = id_todo (?ys ! j)) ?ys = int j"
    using d assms(3) len by (simp add: findIndex_distinct)
  then have bj: "findIndex (\<lambda>item. id_todo item = id_todo (?xs ! i)) (todos ?st1) = int j"
    by (simp add: at_j)
  have t1: "todos ?st1 = ?ys" by simp
  have "findIndex (\<lambda>item. id_todo item = id_todo (?ys ! i)) ?ys = int i"
    using d assms(2) len by (simp add: findIndex_distinct)
  then have bi: "findIndex (\<lambda>item. id_todo item = id_todo (?xs ! ?n)) (todos ?st1) = int i"
    by (simp only: at_i t1)
  have ne: "id_todo (?xs ! i) \<noteq> id_todo (?xs ! ?n)"
    using assms(2) n(1) n(2) [symmetric] by (rule ids)
  have lj: "j < length (todos ?st1)" and li: "i < length (todos ?st1)"
    using assms(2,3) len by simp_all
  have "handleDragEnd \<lparr>active = id_todo (?xs ! i), over = Some (id_todo (?xs ! ?n))\<rparr> ?st1
      = Inr (?st1\<lparr>todos := move_spec j i (todos ?st1)\<rparr>)"
    using ne bj bi lj li by (rule handleDragEnd_move)
  moreover have "move_spec j i (todos ?st1) = ?xs"
    using assms(2,3) by (simp add: move_spec_round_trip)
  ultimately have snd_move: "handleDragEnd
      \<lparr>active = id_todo (?xs ! i), over = Some (id_todo (?xs ! ?n))\<rparr> ?st1 = Inr st"
    by simp
  from first snd_move show ?thesis by (intro conjI)
qed

text \<open>
  C9 in the store \<open>demo\<close>: task 1 is dragged from the front onto task 3 at the end and
  then back onto task 2, its original successor.
\<close>

theorem reorder_round_trip_witness:
  "distinct (map id_todo (todos demo))
   \<and> handleDragEnd \<lparr>active = js ''1'', over = Some (js ''3'')\<rparr> demo
       = Inr (demo\<lparr>todos := [dog, book, milk]\<rparr>)
   \<and> handleDragEnd \<lparr>active = js ''1'', over = Some (js ''2'')\<rparr>
        (demo\<lparr>todos := [dog, book, milk]\<rparr>)
       = Inr demo"
proof -
  have d: "distinct (map id_todo (todos demo))"
    by (simp add: todos_demo demo_ids js_inject)
  have l: "0 < length (todos demo)" "2 < length (todos demo)" "(0::nat) \<noteq> 2"
    by (simp_all add: todos_demo)
  have m: "move_spec 0 2 (todos demo) = [dog, book, milk]"
    by (simp add: todos_demo move_spec_def insert_at_def remove_at_def)
  have e: "id_todo (todos demo ! 0) = js ''1''" "id_todo (todos demo ! 2) = js ''3''"
    "id_todo (todos demo ! (if (0::nat) < 2 then Suc 0 else 0 - 1)) = js ''2''"
    by (simp_all add: todos_demo demo_ids)
  from reorder_round_trip [OF d l] show ?thesis
    using d by (simp only: e m simp_thms)
qed

text \<open>
  The neighbour matters. Task 2 of the store \<open>demo\<close> is dragged onto task 3, its
  successor; dragged back onto task 1, its original predecessor, it ends in front of it,
  and the order is not the original one.
\<close>

lemma reorder_back_onto_other_neighbour:
  "handleDragEnd \<lparr>active = js ''2'', over = Some (js ''3'')\<rparr> demo
     = Inr (demo\<lparr>todos := [milk, book, dog]\<rparr>)
   \<and> handleDragEnd \<lparr>active = js ''2'', over = Some (js ''1'')\<rparr>
        (demo\<lparr>todos := [milk, book, dog]\<rparr>)
     = Inr (demo\<lparr>todos := [dog, milk, book]\<rparr>)"
proof -
  let ?st1 = "demo\<lparr>todos := [milk, book, dog]\<rparr>"
  have "handleDragEnd \<lparr>active = js ''2'', over = Some (js ''3'')\<rparr> demo
      = Inr (demo\<lparr>todos := move_spec 1 2 (todos demo)\<rparr>)"
    by (rule handleDragEnd_move) (simp_all add: todos_demo demo_ids js_inject)
  then have 1: "handleDragEnd \<lparr>active = js ''2'', over = Some (js ''3'')\<rparr> demo = Inr ?st1"
    by (simp add: todos_demo move_spec_def insert_at_def remove_at_def)
  have "handleDragEnd \<lparr>active = js ''2'', over = Some (js ''1'')\<rparr> ?st1
      = Inr (?st1\<lparr>todos := move_spec 2 0 (todos ?st1)\<rparr>)"
    by (rule handleDragEnd_move) (simp_all add: demo_ids js_inject)
  then have 2: "handleDragEnd \<lparr>active = js ''2'', over = Some (js ''1'')\<rparr> ?st1
      = Inr (demo\<lparr>todos := [dog, milk, book]\<rparr>)"
    by (simp add: move_spec_def insert_at_def remove_at_def)
  from 1 2 show ?thesis by (intro conjI)
qed

text \<open>
  C2 does not hold of the code for an absent id. \<open>handleDragEnd\<close> guards against a
  missing drop target and against equal ids (\<open>handleDragEnd_no_move\<close>), but it passes
  the \<open>-1\<close> that \<open>findIndex\<close> returns for an absent id on to \<open>arrayMove\<close>, where
  \<open>splice\<close> reads it as the last index. In the store \<open>demo\<close>, which has no task with
  id 9: a drag of id 9 onto task 1 moves the last task to the front, and a drag of task 1
  onto id 9 moves task 1 to the end.
\<close>

theorem reorder_absent_id_moves_a_task:
  "handleDragEnd \<lparr>active = js ''9'', over = Some (js ''1'')\<rparr> demo
     = Inr (demo\<lparr>todos := [book, milk, dog]\<rparr>)
   \<and> handleDragEnd \<lparr>active = js ''1'', over = Some (js ''9'')\<rparr> demo
     = Inr (demo\<lparr>todos := [dog, book, milk]\<rparr>)
   \<and> js ''9'' \<notin> id_todo ` set (todos demo)
   \<and> todos demo = [milk, dog, book]"
proof -
  have a: "js ''9'' \<noteq> js ''1''" "js ''1'' \<noteq> js ''9''" by (simp_all add: js_inject)
  have f9: "findIndex (\<lambda>item. id_todo item = js ''9'') (todos demo) = - 1"
    and f1: "findIndex (\<lambda>item. id_todo item = js ''1'') (todos demo) = int 0"
    by (simp_all add: todos_demo demo_ids js_inject)
  have l: "0 < length (todos demo)" by (simp add: todos_demo)
  have "handleDragEnd \<lparr>active = js ''9'', over = Some (js ''1'')\<rparr> demo
      = Inr (demo\<lparr>todos := move_spec (length (todos demo) - 1) 0 (todos demo)\<rparr>)"
    using a(1) f9 f1 l by (rule handleDragEnd_absent_source)
  moreover have "move_spec (length (todos demo) - 1) 0 (todos demo) = [book, milk, dog]"
    by (simp add: todos_demo move_spec_def insert_at_def remove_at_def)
  ultimately have 1: "handleDragEnd \<lparr>active = js ''9'', over = Some (js ''1'')\<rparr> demo
     = Inr (demo\<lparr>todos := [book, milk, dog]\<rparr>)" by simp
  have "handleDragEnd \<lparr>active = js ''1'', over = Some (js ''9'')\<rparr> demo
      = Inr (demo\<lparr>todos := move_spec 0 (length (todos demo) - 1) (todos demo)\<rparr>)"
    using a(2) f1 f9 l by (rule handleDragEnd_absent_target)
  moreover have "move_spec 0 (length (todos demo) - 1) (todos demo) = [dog, book, milk]"
    by (simp add: todos_demo move_spec_def insert_at_def remove_at_def)
  ultimately have 2: "handleDragEnd \<lparr>active = js ''1'', over = Some (js ''9'')\<rparr> demo
     = Inr (demo\<lparr>todos := [dog, book, milk]\<rparr>)" by simp
  have 3: "js ''9'' \<notin> id_todo ` set (todos demo)"
    by (simp add: todos_demo demo_ids js_inject)
  from 1 2 3 todos_demo show ?thesis by (intro conjI)
qed

end
